theory Spec2Isabelle
  imports Main "HOL-Library.Sublist"
begin

section \<open>Data of the Gemini agent\<close>

text \<open>
  The development embeds \<^verbatim>\<open>GeminiResponseHandler.ts\<close> (the class
  \<^verbatim>\<open>GeminiResponseHandler\<close>, lines 1-142) and the class \<^verbatim>\<open>GeminiAgent\<close>
  that follows it in the same file (lines 143-273).

  Both classes are asynchronous JavaScript. An \<^verbatim>\<open>async\<close> function runs without
  interruption up to its next \<^verbatim>\<open>await\<close> on a call of the chat transport or of the
  model provider, and is resumed later with the outcome of that call. Each such function is
  therefore embedded as one function for its first segment and one \<open>_resume\<close> function for the
  segments that follow, indexed by the await it is suspended at. A segment returns the new
  fields of the object, the calls it issued to its collaborators, in order, and how it ended.
  What the collaborators answer, and when, is an input of the model. Console output is not
  modelled.

  An \<^verbatim>\<open>await\<close> of one of the class's own functions hands over no control to a
  collaborator, and the segment goes on through it. There are two kinds. The handler's
  \<^verbatim>\<open>dispose\<close> contains no await and has run to its end when the call returns. And
  where \<^verbatim>\<open>run\<close> awaits \<^verbatim>\<open>handleError\<close> (line 84), all that is left of
  \<^verbatim>\<open>run\<close> once \<^verbatim>\<open>handleError\<close> has ended is the \<^verbatim>\<open>dispose\<close> of the
  \<^verbatim>\<open>finally\<close> block.
\<close>

datatype ai_state = AI_STATE_GENERATING | AI_STATE_THINKING | AI_STATE_ERROR

text \<open>A thrown value, as far as the code inspects it: \<^verbatim>\<open>instanceof Error\<close>,
  \<^verbatim>\<open>.name\<close>, \<^verbatim>\<open>.message\<close> (which may be absent) and \<^verbatim>\<open>.toString()\<close>.\<close>

record js_error =
  instanceof_Error :: bool
  error_name :: string
  error_message :: "string option"
  error_toString :: string

text \<open>\<^verbatim>\<open>MessageResponse\<close>: the fields \<^verbatim>\<open>cid\<close> and \<^verbatim>\<open>id\<close> of the reply being written.\<close>

record message_response =
  cid :: string
  id' :: string

text \<open>The message of an inbound \<^verbatim>\<open>message.new\<close> event: the truth value of
  \<^verbatim>\<open>ai_generated\<close>, \<^verbatim>\<open>text\<close> and \<^verbatim>\<open>custom?.writingTask\<close>.\<close>

record inbound_message =
  ai_generated :: bool
  message_body :: "string option"
  writingTask :: "string option"

record event =
  event_message_id :: "string option"
  event_message :: "inbound_message option"

text \<open>The calls made to the collaborators: the chat client and channel, the model, the abort
  controller and the \<^verbatim>\<open>onDispose\<close> callback.\<close>

datatype effect =
    On string
  | Off string
  | SendEvent_update ai_state string string
  | SendEvent_clear string string
  | PartialUpdateMessage string string "string option"
  | SendMessage string bool
  | GenerateContentStream string
  | Abort
  | DisconnectUser
  | OnDispose

text \<open>How an awaited call settles, and what the model's stream delivers: a chunk, given by
  what \<^verbatim>\<open>chunk.text()\<close> returns or throws and by the reading of \<^verbatim>\<open>Date.now()\<close>
  taken while it is processed, or the end of the stream.\<close>

datatype settled = Fulfilled | Rejected js_error

datatype answer = Settled settled | Chunk "js_error + string" int | Exhausted

text \<open>How a segment ends: the function returned, is suspended at an await, or threw.\<close>

datatype 'k outcome = Returned | Suspended 'k | Threw js_error

section \<open>GeminiResponseHandler\<close>

text \<open>The fields of the class (lines 5-8 and 15). \<open>abortController\<close> is \<open>None\<close> while
  undefined and \<open>Some b\<close> for a controller whose signal has \<^verbatim>\<open>aborted = b\<close>.\<close>

record handler =
  message_text :: string
  last_update_time :: int
  is_done :: bool
  abortController :: "bool option"
  message :: message_response

type_synonym 'k segment = "handler \<times> effect list \<times> 'k outcome"

text \<open>\<^verbatim>\<open>dispose\<close> (lines 91-98). It has no await: the whole body is one segment.\<close>

definition dispose :: "handler \<Rightarrow> handler \<times> effect list" where
  "dispose h =
     (if is_done h then (h, [])
      else (h\<lparr>is_done := True\<rparr>, [Off ''ai_indicator.stop'', OnDispose]))"

text \<open>\<^verbatim>\<open>setPrompt\<close> (lines 139-141).\<close>

definition setPrompt :: "string \<Rightarrow> handler \<Rightarrow> handler" where
  "setPrompt prompt h = h\<lparr>message_text := prompt\<rparr>"

text \<open>\<^verbatim>\<open>handleStopGenerating\<close> (lines 100-117): up to the await of line 111, and
  from there on.\<close>

definition handleStopGenerating :: "event \<Rightarrow> handler \<Rightarrow> unit segment" where
  "handleStopGenerating ev h =
     (if is_done h \<or> event_message_id ev \<noteq> Some (id' (message h)) then (h, [], Returned)
      else (case abortController h of
              Some _ \<Rightarrow>
                (h\<lparr>abortController := Some True\<rparr>,
                 [Abort, SendEvent_clear (cid (message h)) (id' (message h))], Suspended ())
            | None \<Rightarrow>
                (h, [SendEvent_clear (cid (message h)) (id' (message h))], Suspended ())))"

definition handleStopGenerating_resume :: "settled \<Rightarrow> handler \<Rightarrow> unit segment" where
  "handleStopGenerating_resume r h =
     (case r of
        Fulfilled \<Rightarrow> (case dispose h of (h', es) \<Rightarrow> (h', es, Returned))
      | Rejected x \<Rightarrow> (h, [], Threw x))"

text \<open>\<^verbatim>\<open>handleError\<close> (lines 119-136). It awaits the error indicator (line 123) and
  the rewrite of the message (line 129).\<close>

datatype he_pc = Error_event js_error | Error_update

definition handleError :: "js_error \<Rightarrow> handler \<Rightarrow> he_pc segment" where
  "handleError e h =
     (if is_done h then (h, [], Returned)
      else (h, [SendEvent_update AI_STATE_ERROR (cid (message h)) (id' (message h))],
            Suspended (Error_event e)))"

fun handleError_resume :: "he_pc \<Rightarrow> settled \<Rightarrow> handler \<Rightarrow> he_pc segment" where
  "handleError_resume (Error_event e) Fulfilled h =
     (h, [PartialUpdateMessage (id' (message h))
            (case error_message e of Some m \<Rightarrow> m | None \<Rightarrow> ''Error generating the message'')
            (Some (error_toString e))],
      Suspended Error_update)"
| "handleError_resume (Error_event e) (Rejected x) h = (h, [], Threw x)"
| "handleError_resume Error_update Fulfilled h =
     (case dispose h of (h', es) \<Rightarrow> (h', es, Returned))"
| "handleError_resume Error_update (Rejected x) h = (h, [], Threw x)"

text \<open>\<^verbatim>\<open>run\<close> (lines 21-89). The awaits it can be suspended at: the generating
  indicator (line 27), the stream request (line 35), the next chunk of the stream (line 44,
  with \<^verbatim>\<open>fullResponse\<close>), the throttled update (line 54, with \<^verbatim>\<open>fullResponse\<close>
  and \<^verbatim>\<open>now\<close>), the final update (line 63), the clear indicator (line 68), the clear
  indicator of the catch block (line 77), and \<^verbatim>\<open>handleError\<close> (line 84).\<close>

datatype run_pc =
    Generating
  | Requesting
  | Iterating string
  | Updating string int
  | Final_update
  | Clearing
  | Cancelled
  | Failing he_pc

text \<open>The \<^verbatim>\<open>finally\<close> block (lines 86-88), entered with the calls \<open>es\<close> of the
  segment so far and the way \<open>out\<close> the function ends after it.\<close>

definition run_finally :: "handler \<Rightarrow> effect list \<Rightarrow> run_pc outcome \<Rightarrow> run_pc segment" where
  "run_finally h es out = (case dispose h of (h', es') \<Rightarrow> (h', es @ es', out))"

text \<open>The \<^verbatim>\<open>catch\<close> block (lines 74-85).\<close>

definition run_catch :: "js_error \<Rightarrow> handler \<Rightarrow> run_pc segment" where
  "run_catch e h =
     (if instanceof_Error e \<and> error_name e = ''AbortError''
      then (h, [SendEvent_clear (cid (message h)) (id' (message h))], Suspended Cancelled)
      else (case handleError e h of
              (h', es, Suspended k) \<Rightarrow> (h', es, Suspended (Failing k))
            | (h', es, Returned) \<Rightarrow> run_finally h' es Returned
            | (h', es, Threw x) \<Rightarrow> run_finally h' es (Threw x)))"

text \<open>Lines 62-65: the final update after the loop.\<close>

definition after_loop :: "string \<Rightarrow> handler \<Rightarrow> run_pc segment" where
  "after_loop fullResponse h =
     (h, [PartialUpdateMessage (id' (message h)) fullResponse None], Suspended Final_update)"

text \<open>Lines 21-32: the first segment of \<^verbatim>\<open>run\<close>.\<close>

definition run :: "handler \<Rightarrow> run_pc segment" where
  "run h =
     (h\<lparr>abortController := Some False\<rparr>,
      [SendEvent_update AI_STATE_GENERATING (cid (message h)) (id' (message h))],
      Suspended Generating)"

text \<open>The later segments. An answer that does not fit the await the function is suspended at
  leaves it suspended there.\<close>

fun run_resume :: "run_pc \<Rightarrow> answer \<Rightarrow> handler \<Rightarrow> run_pc segment" where
  "run_resume Generating (Settled Fulfilled) h =
     (h, [GenerateContentStream (message_text h)], Suspended Requesting)"
| "run_resume Generating (Settled (Rejected e)) h = run_catch e h"
| "run_resume Requesting (Settled Fulfilled) h = (h, [], Suspended (Iterating []))"
| "run_resume Requesting (Settled (Rejected e)) h = run_catch e h"
| "run_resume (Iterating fullResponse) (Chunk c now) h =
     (if is_done h then after_loop fullResponse h
      else (case c of
              Inl e \<Rightarrow> run_catch e h
            | Inr chunkText \<Rightarrow>
                if chunkText \<noteq> [] then
                  if now - last_update_time h > 1000
                  then (h, [PartialUpdateMessage (id' (message h)) (fullResponse @ chunkText) None],
                        Suspended (Updating (fullResponse @ chunkText) now))
                  else (h, [], Suspended (Iterating (fullResponse @ chunkText)))
                else (h, [], Suspended (Iterating fullResponse))))"
| "run_resume (Iterating fullResponse) Exhausted h = after_loop fullResponse h"
| "run_resume (Iterating fullResponse) (Settled (Rejected e)) h = run_catch e h"
| "run_resume (Updating fullResponse now) (Settled Fulfilled) h =
     (h\<lparr>last_update_time := now\<rparr>, [], Suspended (Iterating fullResponse))"
| "run_resume (Updating fullResponse now) (Settled (Rejected e)) h = run_catch e h"
| "run_resume Final_update (Settled Fulfilled) h =
     (h, [SendEvent_clear (cid (message h)) (id' (message h))], Suspended Clearing)"
| "run_resume Final_update (Settled (Rejected e)) h = run_catch e h"
| "run_resume Clearing (Settled Fulfilled) h = run_finally h [] Returned"
| "run_resume Clearing (Settled (Rejected e)) h = run_catch e h"
| "run_resume Cancelled (Settled Fulfilled) h = run_finally h [] Returned"
| "run_resume Cancelled (Settled (Rejected e)) h = run_finally h [] (Threw e)"
| "run_resume (Failing k) (Settled r) h =
     (case handleError_resume k r h of
        (h', es, Suspended k') \<Rightarrow> (h', es, Suspended (Failing k'))
      | (h', es, Returned) \<Rightarrow> run_finally h' es Returned
      | (h', es, Threw x) \<Rightarrow> run_finally h' es (Threw x))"
| "run_resume k a h = (h, [], Suspended k)"

subsection \<open>A handler and its suspended invocations\<close>

text \<open>
  A handler object together with what is in flight for it: the state of its one invocation of
  \<^verbatim>\<open>run\<close> (\<open>None\<close> before the call), the number of invocations of
  \<^verbatim>\<open>handleStopGenerating\<close> suspended at line 111, and the calls the handler has issued
  so far.
\<close>

record hsys =
  obj :: handler
  running :: "run_pc outcome option"
  stopping :: nat
  calls :: "effect list"

text \<open>
  What can happen to a handler: \<^verbatim>\<open>run\<close> is called, the call awaited by
  \<^verbatim>\<open>run\<close> is answered, the transport delivers an \<^verbatim>\<open>ai_indicator.stop\<close> event
  to the listener, the call awaited by a suspended stop listener settles, or
  \<^verbatim>\<open>dispose\<close> is called from outside. Any of these may come at any time and in any
  order: the provider is free to ignore an abort, and a stop event may reach the listener
  whether or not it is still registered. \<^verbatim>\<open>run\<close> is called once for a handler
  (line 265); a call while an invocation exists is not modelled and changes nothing.
\<close>

datatype input =
    Call_run
  | Answer answer
  | Stop_event event
  | Stop_answer settled
  | Call_dispose

fun react :: "input \<Rightarrow> hsys \<Rightarrow> hsys \<times> effect list" where
  "react Call_run s =
     (case running s of
        None \<Rightarrow> (case run (obj s) of (h, es, out) \<Rightarrow> (s\<lparr>obj := h, running := Some out\<rparr>, es))
      | Some _ \<Rightarrow> (s, []))"
| "react (Answer a) s =
     (case running s of
        Some (Suspended k) \<Rightarrow>
          (case run_resume k a (obj s) of (h, es, out) \<Rightarrow> (s\<lparr>obj := h, running := Some out\<rparr>, es))
      | _ \<Rightarrow> (s, []))"
| "react (Stop_event ev) s =
     (case handleStopGenerating ev (obj s) of
        (h, es, Suspended _) \<Rightarrow> (s\<lparr>obj := h, stopping := Suc (stopping s)\<rparr>, es)
      | (h, es, _) \<Rightarrow> (s\<lparr>obj := h\<rparr>, es))"
| "react (Stop_answer r) s =
     (if stopping s = 0 then (s, [])
      else (case handleStopGenerating_resume r (obj s) of
              (h, es, _) \<Rightarrow> (s\<lparr>obj := h, stopping := stopping s - 1\<rparr>, es)))"
| "react Call_dispose s = (case dispose (obj s) of (h, es) \<Rightarrow> (s\<lparr>obj := h\<rparr>, es))"

definition step :: "input \<Rightarrow> hsys \<Rightarrow> hsys" where
  "step i s = (case react i s of (s', es) \<Rightarrow> s'\<lparr>calls := calls s' @ es\<rparr>)"

definition exec :: "input list \<Rightarrow> hsys \<Rightarrow> hsys" where
  "exec ins s = fold step ins s"

text \<open>The constructor (lines 5-19), followed by \<^verbatim>\<open>setPrompt\<close> as the agent does at
  lines 254-263.\<close>

definition new_handler :: "message_response \<Rightarrow> hsys" where
  "new_handler m =
     \<lparr>obj = \<lparr>message_text = [], last_update_time = 0, is_done = False,
             abortController = None, message = m\<rparr>,
      running = None, stopping = 0, calls = [On ''ai_indicator.stop'']\<rparr>"

definition prompted :: "string \<Rightarrow> message_response \<Rightarrow> hsys" where
  "prompted prompt m = (new_handler m)\<lparr>obj := setPrompt prompt (obj (new_handler m))\<rparr>"

section \<open>GeminiAgent\<close>

text \<open>
  The agent owns the registry \<^verbatim>\<open>handlers\<close>, an array of references to handler objects.
  The objects themselves live in \<open>objects\<close>; a reference is an index into it, and
  \<^verbatim>\<open>new\<close> appends. \<open>genAI\<close> and \<open>model\<close> say whether the two optional fields
  are set. \<open>tasks\<close> holds the invocations of \<^verbatim>\<open>handleMessage\<close> that are suspended
  (at line 242 while \<open>channelMessage\<close> is \<open>None\<close>, at line 247 afterwards),
  \<open>disposing\<close> counts the invocations of the agent's \<^verbatim>\<open>dispose\<close> suspended at
  line 161, and \<open>agent_calls\<close> lists the calls the agent itself has issued.
\<close>

record hm_task =
  fullPrompt :: string
  channelMessage :: "message_response option"

record world =
  genAI :: bool
  model :: bool
  lastInteractionTs :: int
  handlers :: "nat list"
  objects :: "hsys list"
  tasks :: "hm_task list"
  disposing :: nat
  agent_calls :: "effect list"

text \<open>The constructor (lines 149-157); \<open>now\<close> is the reading of \<^verbatim>\<open>Date.now()\<close>.\<close>

definition new_agent :: "int \<Rightarrow> world" where
  "new_agent now =
     \<lparr>genAI = False, model = False, lastInteractionTs = now, handlers = [], objects = [],
      tasks = [], disposing = 0, agent_calls = []\<rparr>"

text \<open>\<^verbatim>\<open>removeHandler\<close> (lines 268-272).\<close>

definition removeHandler :: "nat \<Rightarrow> world \<Rightarrow> world" where
  "removeHandler handlerToRemove w =
     w\<lparr>handlers := filter (\<lambda>handler. handler \<noteq> handlerToRemove) (handlers w)\<rparr>"

text \<open>
  Something happens to the handler object \<open>r\<close>. Its \<^verbatim>\<open>onDispose\<close> is the closure
  \<^verbatim>\<open>() => this.removeHandler(handler)\<close> of line 260, so every \<open>OnDispose\<close> among
  the calls of the segment runs \<open>removeHandler r\<close>.
\<close>

definition onDispose :: "nat \<Rightarrow> effect \<Rightarrow> world \<Rightarrow> world" where
  "onDispose r e w = (if e = OnDispose then removeHandler r w else w)"

definition deliver :: "nat \<Rightarrow> input \<Rightarrow> world \<Rightarrow> world" where
  "deliver r i w =
     (if r < length (objects w)
      then (case react i (objects w ! r) of
              (s', es) \<Rightarrow>
                fold (onDispose r) es
                  (w\<lparr>objects := (objects w)[r := s'\<lparr>calls := calls s' @ es\<rparr>]\<rparr>))
      else w)"

text \<open>\<^verbatim>\<open>init\<close> (lines 173-191); \<open>apiKey\<close> is \<^verbatim>\<open>process.env.GEMINI_API_KEY\<close>.\<close>

definition init :: "string option \<Rightarrow> world \<Rightarrow> js_error + world" where
  "init apiKey w =
     (if apiKey = None \<or> apiKey = Some []
      then Inl \<lparr>instanceof_Error = True, error_name = ''Error'',
                error_message = Some ''Gemini API key is required'',
                error_toString = ''Error: Gemini API key is required''\<rparr>
      else Inr (w\<lparr>genAI := True, model := True,
                  agent_calls := agent_calls w @ [On ''message.new'']\<rparr>))"

text \<open>\<^verbatim>\<open>getWritingAssistantPrompt\<close> (lines 193-217); \<open>currentDate\<close> is what
  \<^verbatim>\<open>toLocaleDateString\<close> returns.\<close>

definition getWritingAssistantPrompt :: \<open>string \<Rightarrow> string option \<Rightarrow> string\<close> where
  \<open>getWritingAssistantPrompt currentDate context = concat
    [''You are an expert AI Writing Assistant. Your primary purpose is to be a collaborative writing partner.\<newline>'',
     ''\<newline>'',
     ''**Your Core Capabilities:**\<newline>'',
     ''- Content Creation, Improvement, Style Adaptation, Brainstorming, and Writing Coaching.\<newline>'',
     ''- **Web Search**: You have the ability to search the web for up-to-date information when needed.\<newline>'',
     ''- **Current Date**: Today's date is '', currentDate, ''. Please use this for any time-sensitive queries.\<newline>'',
     ''\<newline>'',
     ''**Crucial Instructions:**\<newline>'',
     ''1. When users ask for current information, news, or facts, you should search the web for the most up-to-date information.\<newline>'',
     ''2. Synthesize information from web searches to provide comprehensive and accurate answers. Cite sources if available.\<newline>'',
     ''3. Be direct and production-ready in your responses.\<newline>'',
     ''4. Use clear formatting and structure.\<newline>'',
     ''5. Never begin responses with phrases like "Here's the edit:", "Here are the changes:", or similar introductory statements.\<newline>'',
     ''6. Provide responses directly and professionally without unnecessary preambles.\<newline>'',
     ''\<newline>'',
     ''**Writing Context**: '',
     (case context of
        None \<Rightarrow> ''General writing assistance.''
      | Some c \<Rightarrow> if c = [] then ''General writing assistance.'' else c),
     ''\<newline>'',
     ''\<newline>'',
     ''Your goal is to provide accurate, current, and helpful written content. Always strive for clarity, accuracy, and helpfulness in your responses.'']\<close>

text \<open>\<^verbatim>\<open>handleMessage\<close> (lines 219-266): up to the await of line 242; from there to the
  await of line 247, resumed with what \<^verbatim>\<open>sendMessage\<close> settled to; and from there to
  the end, where the first segment of the new handler's \<^verbatim>\<open>run\<close> is executed by the
  call of line 265. \<open>now\<close> is the reading of \<^verbatim>\<open>Date.now()\<close> at line 232. A task
  that has ended is dropped from \<open>tasks\<close>.\<close>

definition handleMessage :: "event \<Rightarrow> int \<Rightarrow> string \<Rightarrow> world \<Rightarrow> world" where
  "handleMessage e now currentDate w =
     (if \<not> genAI w \<or> \<not> model w then w
      else (case event_message e of
              None \<Rightarrow> w
            | Some m \<Rightarrow>
                if ai_generated m then w
                else (case message_body m of
                        None \<Rightarrow> w
                      | Some msg \<Rightarrow>
                          if msg = [] then w
                          else
                            let context =
                                  (case writingTask m of
                                     None \<Rightarrow> None
                                   | Some t \<Rightarrow>
                                       if t = [] then None else Some (''Writing Task: '' @ t));
                                instructions = getWritingAssistantPrompt currentDate context
                            in w\<lparr>lastInteractionTs := now,
                                 tasks := tasks w @
                                   [\<lparr>fullPrompt =
                                       instructions @ ''\<newline>\<newline>User Message: '' @ msg,
                                     channelMessage = None\<rparr>],
                                 agent_calls := agent_calls w @ [SendMessage [] True]\<rparr>)))"

definition drop_task :: "nat \<Rightarrow> world \<Rightarrow> world" where
  "drop_task i w = w\<lparr>tasks := take i (tasks w) @ drop (Suc i) (tasks w)\<rparr>"

definition handleMessage_sent :: "nat \<Rightarrow> js_error + message_response \<Rightarrow> world \<Rightarrow> world" where
  "handleMessage_sent i r w =
     (if i < length (tasks w) \<and> channelMessage (tasks w ! i) = None
      then (case r of
              Inl x \<Rightarrow> drop_task i w
            | Inr m \<Rightarrow>
                w\<lparr>tasks := (tasks w)[i := (tasks w ! i)\<lparr>channelMessage := Some m\<rparr>],
                  agent_calls := agent_calls w @ [SendEvent_update AI_STATE_THINKING (cid m) (id' m)]\<rparr>)
      else w)"

definition handleMessage_indicated :: "nat \<Rightarrow> settled \<Rightarrow> world \<Rightarrow> world" where
  "handleMessage_indicated i r w =
     (if i < length (tasks w)
      then (case (channelMessage (tasks w ! i), r) of
              (Some m, Fulfilled) \<Rightarrow>
                deliver (length (objects w)) Call_run
                  ((drop_task i w)
                     \<lparr>objects := objects w @ [prompted (fullPrompt (tasks w ! i)) m],
                      handlers := handlers w @ [length (objects w)]\<rparr>)
            | (Some m, Rejected x) \<Rightarrow> drop_task i w
            | (None, _) \<Rightarrow> w)
      else w)"

text \<open>The agent's \<^verbatim>\<open>dispose\<close> (lines 159-165): up to the await of line 161, and from
  there on. \<^verbatim>\<open>forEach\<close> walks the array that \<^verbatim>\<open>this.handlers\<close> held when it was
  called; \<^verbatim>\<open>removeHandler\<close> assigns a new array and leaves that one as it is.\<close>

definition agent_dispose :: "world \<Rightarrow> world" where
  "agent_dispose w =
     w\<lparr>disposing := Suc (disposing w),
       agent_calls := agent_calls w @ [Off ''message.new'', DisconnectUser]\<rparr>"

definition agent_dispose_resume :: "settled \<Rightarrow> world \<Rightarrow> js_error + world" where
  "agent_dispose_resume r w =
     (case r of
        Rejected x \<Rightarrow> Inl x
      | Fulfilled \<Rightarrow>
          Inr ((fold (\<lambda>handler. deliver handler Call_dispose) (handlers w) w)\<lparr>handlers := []\<rparr>))"

text \<open>What can happen to the agent and its handlers. An exception that leaves
  \<^verbatim>\<open>init\<close> or \<^verbatim>\<open>dispose\<close> goes to their caller and changes nothing here.\<close>

datatype winput =
    Call_init "string option"
  | Message_new event int string
  | Message_sent nat "js_error + message_response"
  | Indicator_sent nat settled
  | To_handler nat input
  | Call_agent_dispose
  | Disconnected settled

fun wstep :: "winput \<Rightarrow> world \<Rightarrow> world" where
  "wstep (Call_init apiKey) w = (case init apiKey w of Inl x \<Rightarrow> w | Inr w' \<Rightarrow> w')"
| "wstep (Message_new e now currentDate) w = handleMessage e now currentDate w"
| "wstep (Message_sent i r) w = handleMessage_sent i r w"
| "wstep (Indicator_sent i r) w = handleMessage_indicated i r w"
| "wstep (To_handler r i) w = deliver r i w"
| "wstep Call_agent_dispose w = agent_dispose w"
| "wstep (Disconnected r) w =
     (if disposing w = 0 then w
      else (case agent_dispose_resume r (w\<lparr>disposing := disposing w - 1\<rparr>) of
              Inl x \<Rightarrow> w\<lparr>disposing := disposing w - 1\<rparr>
            | Inr w' \<Rightarrow> w'))"

definition wexec :: "winput list \<Rightarrow> world \<Rightarrow> world" where
  "wexec ins w = fold wstep ins w"

section \<open>Notions used to state the properties\<close>

text \<open>\<open>once h es h'\<close>: a segment that takes the handler from \<open>h\<close> to \<open>h'\<close> with the calls
  \<open>es\<close> invoked \<^verbatim>\<open>onDispose\<close> as often as it switched \<open>is_done\<close> on, and never
  switched it off.\<close>

definition once :: "handler \<Rightarrow> effect list \<Rightarrow> handler \<Rightarrow> bool" where
  "once h es h' \<longleftrightarrow>
     count_list es OnDispose + (if is_done h then 1 else 0) = (if is_done h' then 1 else 0)"

definition disposed_once :: "hsys \<Rightarrow> bool" where
  "disposed_once s \<longleftrightarrow> count_list (calls s) OnDispose = (if is_done (obj s) then 1 else 0)"

text \<open>A reference that points to an object and is either still registered or done.\<close>

definition kept :: "nat \<Rightarrow> world \<Rightarrow> bool" where
  "kept r w \<longleftrightarrow>
     r < length (objects w) \<and> (r \<in> set (handlers w) \<or> is_done (obj (objects w ! r)))"

definition registry_ok :: "world \<Rightarrow> bool" where
  "registry_ok w \<longleftrightarrow> (\<forall>r \<in> set (handlers w). r < length (objects w))"

text \<open>
  The texts of the updates that set only the text of the message, in the order they were
  issued. These are the updates of the loop (line 54) and the one after it (line 63); the
  rewrite by \<^verbatim>\<open>handleError\<close> (line 129) sets \<^verbatim>\<open>text\<close> and \<^verbatim>\<open>message\<close>.
\<close>

fun stream_texts :: "effect list \<Rightarrow> string list" where
  "stream_texts [] = []"
| "stream_texts (PartialUpdateMessage i t None # es) = t # stream_texts es"
| "stream_texts (e # es) = stream_texts es"

text \<open>\<open>quiet es\<close>: no such update and no request to the model among the calls \<open>es\<close>.\<close>

definition quiet :: "effect list \<Rightarrow> bool" where
  "quiet es \<longleftrightarrow> stream_texts es = [] \<and> (\<forall>p. GenerateContentStream p \<notin> set es)"

text \<open>\<open>past_loop\<close>: \<^verbatim>\<open>run\<close> has left the loop of lines 44-60, for the code after it, for
  the catch block, or for good.\<close>

fun past_loop :: "run_pc outcome option \<Rightarrow> bool" where
  "past_loop None = False"
| "past_loop (Some (Suspended Generating)) = False"
| "past_loop (Some (Suspended Requesting)) = False"
| "past_loop (Some (Suspended (Iterating fullResponse))) = False"
| "past_loop (Some (Suspended (Updating fullResponse now))) = False"
| "past_loop (Some out) = True"

text \<open>The value of \<^verbatim>\<open>fullResponse\<close> while \<^verbatim>\<open>run\<close> is in the loop.\<close>

fun acc :: "run_pc outcome option \<Rightarrow> string" where
  "acc (Some (Suspended (Iterating fullResponse))) = fullResponse"
| "acc (Some (Suspended (Updating fullResponse now))) = fullResponse"
| "acc out = []"

definition grows :: "run_pc outcome option \<Rightarrow> effect list \<Rightarrow> run_pc outcome option \<Rightarrow> bool" where
  "grows before es after \<longleftrightarrow>
     (stream_texts es = [] \<or>
      (\<exists>f. stream_texts es = [f] \<and> prefix (acc before) f \<and>
           (\<not> past_loop after \<longrightarrow> f = acc after)))
     \<and> (\<not> past_loop after \<longrightarrow> prefix (acc before) (acc after))"

definition monotone_updates :: "hsys \<Rightarrow> bool" where
  "monotone_updates s \<longleftrightarrow>
     sorted_wrt prefix (stream_texts (calls s)) \<and>
     (\<not> past_loop (running s) \<longrightarrow>
        (\<forall>t \<in> set (stream_texts (calls s)). prefix t (acc (running s))))"

text \<open>
  The chunk texts that the stream handed to the loop of \<^verbatim>\<open>run\<close> while \<open>is_done\<close> was
  false, over the inputs \<open>ins\<close> from the state \<open>s\<close> on: \<open>taken i s\<close> is what the input
  \<open>i\<close> contributes.
\<close>

definition taken :: "input \<Rightarrow> hsys \<Rightarrow> string list" where
  "taken i s =
     (case (i, running s) of
        (Answer (Chunk (Inr chunkText) now), Some (Suspended (Iterating fullResponse))) \<Rightarrow>
          if is_done (obj s) then [] else [chunkText]
      | _ \<Rightarrow> [])"

fun consumed :: "input list \<Rightarrow> hsys \<Rightarrow> string list" where
  "consumed [] s = []"
| "consumed (i # ins) s = taken i s @ consumed ins (step i s)"

text \<open>
  The updates of the loop as they are issued. \<open>issued_at i s\<close> holds the reading \<open>now\<close>
  of \<^verbatim>\<open>Date.now()\<close> when the input \<open>i\<close> is a chunk that reaches a handler which is not
  done and the segment that processes it issues an update setting only the text of the message:
  that is an update of line 54, since the update of line 63 is issued when the stream has ended
  or when the chunk finds \<open>is_done\<close> set. \<open>update_times ins s\<close> lists these readings over
  the inputs \<open>ins\<close> from the state \<open>s\<close> on.
\<close>

definition issued_at :: "input \<Rightarrow> hsys \<Rightarrow> int list" where
  "issued_at i s =
     (case i of
        Answer (Chunk c now) \<Rightarrow>
          if \<not> is_done (obj s) \<and> stream_texts (snd (react i s)) \<noteq> [] then [now] else []
      | _ \<Rightarrow> [])"

fun update_times :: "input list \<Rightarrow> hsys \<Rightarrow> int list" where
  "update_times [] s = []"
| "update_times (i # ins) s = issued_at i s @ update_times ins (step i s)"

text \<open>
  The same seen from the position of \<^verbatim>\<open>run\<close>: \<open>flush_of before after\<close> holds
  \<open>now\<close> when \<^verbatim>\<open>run\<close> goes from the await of line 44 to the await of line 54 with
  the reading \<open>now\<close>. The two agree on every step (\<open>issued_at_flush_of\<close> below).
\<close>

fun flush_of :: "run_pc outcome option \<Rightarrow> run_pc outcome option \<Rightarrow> int list" where
  "flush_of (Some (Suspended (Iterating fullResponse))) (Some (Suspended (Updating fullResponse' now))) = [now]"
| "flush_of before after = []"

fun throttled_updates :: "input list \<Rightarrow> hsys \<Rightarrow> int list" where
  "throttled_updates [] s = []"
| "throttled_updates (i # ins) s =
     flush_of (running s) (running (step i s)) @ throttled_updates ins (step i s)"

text \<open>The time the next update of the loop is measured against: \<open>last_update_time\<close>, or
  the reading taken for the update that is under way.\<close>

fun bound_of :: "run_pc outcome option \<Rightarrow> handler \<Rightarrow> int" where
  "bound_of (Some (Suspended (Updating fullResponse now))) h = now"
| "bound_of out h = last_update_time h"

text \<open>\<open>in_try k\<close>: the await \<open>k\<close> of \<^verbatim>\<open>run\<close> lies in the \<^verbatim>\<open>try\<close> block
  (lines 25-73), so that a failure there enters the \<^verbatim>\<open>catch\<close> block.\<close>

fun in_try :: "run_pc \<Rightarrow> bool" where
  "in_try Cancelled = False"
| "in_try (Failing k) = False"
| "in_try k = True"

text \<open>\<open>unrequested\<close>: \<^verbatim>\<open>run\<close> has not got as far as line 35.\<close>

fun unrequested :: "run_pc outcome option \<Rightarrow> bool" where
  "unrequested None = True"
| "unrequested (Some (Suspended Generating)) = True"
| "unrequested out = False"

definition no_request :: "effect list \<Rightarrow> bool" where
  "no_request es \<longleftrightarrow> (\<forall>p. GenerateContentStream p \<notin> set es)"

subsection \<open>Example data\<close>

definition msg1 :: message_response where
  "msg1 = \<lparr>cid = ''messaging:c1'', id' = ''m1''\<rparr>"

definition msg2 :: message_response where
  "msg2 = \<lparr>cid = ''messaging:c1'', id' = ''m2''\<rparr>"

definition user_event :: "string \<Rightarrow> event" where
  "user_event body =
     \<lparr>event_message_id = None,
      event_message = Some \<lparr>ai_generated = False, message_body = Some body, writingTask = None\<rparr>\<rparr>"

definition ai_event :: "string \<Rightarrow> event" where
  "ai_event body =
     \<lparr>event_message_id = None,
      event_message = Some \<lparr>ai_generated = True, message_body = Some body, writingTask = None\<rparr>\<rparr>"

definition stop_for :: "string \<Rightarrow> event" where
  "stop_for mid = \<lparr>event_message_id = Some mid, event_message = None\<rparr>"

definition quota_error :: js_error where
  "quota_error =
     \<lparr>instanceof_Error = True, error_name = ''Error'', error_message = Some ''quota exceeded'',
      error_toString = ''Error: quota exceeded''\<rparr>"

definition two_in_flight :: "winput list" where
  "two_in_flight =
     [Call_init (Some ''key''),
      Message_new (user_event ''a'') 10 ''May 1, 2025'',
      Message_sent 0 (Inr msg1), Indicator_sent 0 Fulfilled,
      Message_new (user_event ''b'') 20 ''May 1, 2025'',
      Message_sent 0 (Inr msg2), Indicator_sent 0 Fulfilled]"

definition streamed :: "input list" where
  "streamed =
     [Call_run, Answer (Settled Fulfilled), Answer (Settled Fulfilled),
      Answer (Chunk (Inr ''The '') 5000), Answer (Settled Fulfilled),
      Answer (Chunk (Inr ''summary '') 5001), Answer (Chunk (Inr ''is Y.'') 5002)]"

definition flushed_once :: hsys where
  "flushed_once =
     exec [Call_run, Answer (Settled Fulfilled), Answer (Settled Fulfilled),
           Answer (Chunk (Inr ''The '') 5000), Answer (Settled Fulfilled)]
       (prompted ''Summarize X'' msg1)"

definition disposed_handler :: handler where
  "disposed_handler =
     \<lparr>message_text = ''Summarize X'', last_update_time = 5000, is_done = True,
      abortController = Some True, message = msg1\<rparr>"

definition abort_error :: js_error where
  "abort_error =
     \<lparr>instanceof_Error = True, error_name = ''AbortError'',
      error_message = Some ''This operation was aborted'',
      error_toString = ''AbortError: This operation was aborted''\<rparr>"

definition raced :: "input list" where
  "raced =
     [Call_run, Answer (Settled Fulfilled), Answer (Settled Fulfilled),
      Stop_event (stop_for ''m1''), Call_dispose, Stop_answer Fulfilled,
      Answer (Settled (Rejected abort_error)), Answer (Settled Fulfilled)]"

definition generating_fails :: "input list" where
  "generating_fails =
     [Call_run, Answer (Settled (Rejected quota_error)),
      Answer (Settled Fulfilled), Answer (Settled Fulfilled)]"

definition stopped_then_chunk :: "input list" where
  "stopped_then_chunk =
     [Call_run, Answer (Settled Fulfilled), Answer (Settled Fulfilled),
      Answer (Chunk (Inr ''The '') 5000), Answer (Settled Fulfilled),
      Answer (Chunk (Inr ''summary '') 5001),
      Stop_event (stop_for ''m1''), Stop_answer Fulfilled,
      Answer (Chunk (Inr ''is Y.'') 5002),
      Answer (Settled Fulfilled), Answer (Settled Fulfilled)]"

definition stopping_then_chunk :: "input list" where
  "stopping_then_chunk =
     [Call_run, Answer (Settled Fulfilled), Answer (Settled Fulfilled),
      Answer (Chunk (Inr ''The '') 5000), Answer (Settled Fulfilled),
      Stop_event (stop_for ''m1''),
      Answer (Chunk (Inr ''summary '') 7000)]"

definition stopped_then_fails :: "input list" where
  "stopped_then_fails =
     [Call_run, Answer (Settled Fulfilled), Answer (Settled Fulfilled),
      Stop_event (stop_for ''m1''), Stop_answer Fulfilled,
      Answer (Settled (Rejected quota_error))]"

definition stream_fails :: "input list" where
  "stream_fails =
     [Call_run, Answer (Settled Fulfilled), Answer (Settled Fulfilled),
      Answer (Settled (Rejected quota_error)),
      Answer (Settled Fulfilled), Answer (Settled Fulfilled)]"

section \<open>Disposal happens once\<close>

lemma once_refl: "once h [] h"
  by (simp add: once_def)

lemma dispose_once: "dispose h = (h', es) \<Longrightarrow> once h es h'"
  by (auto simp: dispose_def once_def split: if_splits)

lemma stop_once: "handleStopGenerating ev h = (h', es, out) \<Longrightarrow> once h es h'"
  by (auto simp: handleStopGenerating_def once_def split: if_splits option.splits)

lemma stop_resume_once: "handleStopGenerating_resume r h = (h', es, out) \<Longrightarrow> once h es h'"
  by (auto simp: handleStopGenerating_resume_def dispose_def once_def
      split: if_splits settled.splits)

lemma handleError_once: "handleError e h = (h', es, out) \<Longrightarrow> once h es h'"
  by (auto simp: handleError_def once_def split: if_splits)

lemma handleError_resume_once: "handleError_resume k r h = (h', es, out) \<Longrightarrow> once h es h'"
  by (cases "(k, r, h)" rule: handleError_resume.cases)
     (auto simp: dispose_def once_def split: if_splits)

lemma run_finally_once:
  "once h0 es h \<Longrightarrow> run_finally h es out = (h', es', out') \<Longrightarrow> once h0 es' h'"
  by (auto simp: run_finally_def dispose_def once_def split: if_splits)

lemma run_finally_out: "run_finally h es out = (h', es', out') \<Longrightarrow> out' = out"
  by (auto simp: run_finally_def split: prod.splits)

lemma run_catch_once: "run_catch e h = (h', es, out) \<Longrightarrow> once h es h'"
  by (auto simp: run_catch_def split: if_splits prod.splits outcome.splits
      dest!: handleError_once elim: run_finally_once) (auto simp: once_def)

lemma run_once: "run h = (h', es, out) \<Longrightarrow> once h es h'"
  by (auto simp: run_def once_def)

lemma run_resume_once: "run_resume k a h = (h', es, out) \<Longrightarrow> once h es h'"
  apply (cases "(k, a, h)" rule: run_resume.cases)
  apply (auto simp: after_loop_def split: if_splits sum.splits prod.splits outcome.splits
      dest!: run_catch_once handleError_resume_once
      elim: run_finally_once run_finally_once[OF once_refl])
  apply (auto simp: once_def)
  done

lemma react_once: "react i s = (s', es) \<Longrightarrow> once (obj s) es (obj s')"
  by (cases i)
     (auto simp: once_refl split: option.splits outcome.splits prod.splits if_splits
       dest: run_once run_resume_once stop_once stop_resume_once dispose_once)

lemma react_calls: "react i s = (s', es) \<Longrightarrow> calls s' = calls s"
  by (cases i) (auto split: option.splits outcome.splits prod.splits if_splits)

lemma step_disposed_once: "disposed_once s \<Longrightarrow> disposed_once (step i s)"
proof -
  assume a: "disposed_once s"
  obtain s' es where r: "react i s = (s', es)" by (cases "react i s")
  from react_once[OF r] react_calls[OF r] a show ?thesis
    by (auto simp: step_def r disposed_once_def once_def split: if_splits)
qed

lemma exec_disposed_once: "disposed_once s \<Longrightarrow> disposed_once (exec ins s)"
  unfolding exec_def by (induction ins arbitrary: s) (auto intro: step_disposed_once)

lemma step_done_mono: "is_done (obj s) \<Longrightarrow> is_done (obj (step i s))"
proof -
  assume a: "is_done (obj s)"
  obtain s' es where r: "react i s = (s', es)" by (cases "react i s")
  from react_once[OF r] a show ?thesis
    by (auto simp: step_def r once_def split: if_splits)
qed

lemma exec_done_mono: "is_done (obj s) \<Longrightarrow> is_done (obj (exec ins s))"
  unfolding exec_def by (induction ins arbitrary: s) (auto intro: step_done_mono)

lemma step_Call_dispose_done: "is_done (obj (step Call_dispose s))"
  by (simp add: step_def dispose_def)

lemma exec_Call_dispose_done: "Call_dispose \<in> set ins \<Longrightarrow> is_done (obj (exec ins s))"
proof -
  assume "Call_dispose \<in> set ins"
  then obtain xs ys where "ins = xs @ Call_dispose # ys" by (meson split_list)
  then have "exec ins s = exec ys (step Call_dispose (exec xs s))"
    by (simp add: exec_def)
  then show ?thesis by (simp add: exec_done_mono step_Call_dispose_done)
qed

lemma prompted_disposed_once: "disposed_once (prompted p m)"
  by (simp add: disposed_once_def prompted_def new_handler_def setPrompt_def)

section \<open>The registry\<close>

lemma fold_onDispose:
  "fold (onDispose r) es w = (if OnDispose \<in> set es then removeHandler r w else w)"
proof (induction es arbitrary: w)
  case Nil
  then show ?case by simp
next
  case (Cons e es)
  have idem: "removeHandler r (removeHandler r w) = removeHandler r w" for w
    by (simp add: removeHandler_def)
  show ?case unfolding fold_simps o_apply Cons.IH by (simp add: onDispose_def idem)
qed

lemma deliver_eq:
  "r < length (objects w) \<Longrightarrow>
   deliver r i w =
     (if OnDispose \<in> set (snd (react i (objects w ! r)))
      then removeHandler r (w\<lparr>objects := (objects w)[r := step i (objects w ! r)]\<rparr>)
      else w\<lparr>objects := (objects w)[r := step i (objects w ! r)]\<rparr>)"
  by (auto simp: deliver_def step_def fold_onDispose split: prod.splits)

lemma deliver_out_of_range: "\<not> r < length (objects w) \<Longrightarrow> deliver r i w = w"
  by (simp add: deliver_def)

lemma removeHandler_absent: "r \<notin> set (handlers w) \<Longrightarrow> removeHandler r w = w"
proof -
  assume "r \<notin> set (handlers w)"
  then have "filter (\<lambda>handler. handler \<noteq> r) (handlers w) = handlers w"
    by (auto simp: filter_id_conv)
  then show ?thesis by (simp add: removeHandler_def)
qed

lemma react_OnDispose_done: "OnDispose \<in> set (snd (react i s)) \<Longrightarrow> is_done (obj (step i s))"
proof -
  assume a: "OnDispose \<in> set (snd (react i s))"
  obtain s' es where r: "react i s = (s', es)" by (cases "react i s")
  with a have "count_list es OnDispose \<noteq> 0" by (simp add: count_list_0_iff)
  with react_once[OF r] show ?thesis
    by (auto simp: step_def r once_def split: if_splits)
qed

lemma deliver_kept: "kept r w \<Longrightarrow> kept r (deliver r' i w)"
  apply (cases "r' < length (objects w)")
   apply (cases "r' = r")
    apply (auto simp: deliver_eq deliver_out_of_range kept_def removeHandler_def
      react_OnDispose_done step_done_mono)
  done

lemma deliver_done_mono:
  "r < length (objects w) \<Longrightarrow> is_done (obj (objects w ! r)) \<Longrightarrow>
   r < length (objects (deliver r' i w)) \<and> is_done (obj (objects (deliver r' i w) ! r))"
  apply (cases "r' < length (objects w)")
   apply (cases "r' = r")
    apply (auto simp: deliver_eq deliver_out_of_range removeHandler_def step_done_mono)
  done

lemma deliver_dispose_done:
  "r < length (objects w) \<Longrightarrow>
   r < length (objects (deliver r Call_dispose w)) \<and>
   is_done (obj (objects (deliver r Call_dispose w) ! r))"
  by (auto simp: deliver_eq removeHandler_def step_Call_dispose_done)

lemma deliver_length: "length (objects (deliver r i w)) = length (objects w)"
  by (cases "r < length (objects w)")
     (auto simp: deliver_eq deliver_out_of_range removeHandler_def)

lemma fold_dispose_done_mono:
  "r < length (objects w) \<Longrightarrow> is_done (obj (objects w ! r)) \<Longrightarrow>
   r < length (objects (fold (\<lambda>h. deliver h Call_dispose) hs w)) \<and>
   is_done (obj (objects (fold (\<lambda>h. deliver h Call_dispose) hs w) ! r))"
  by (induction hs arbitrary: w) (auto dest: deliver_done_mono)

lemma fold_dispose_all:
  "r \<in> set hs \<Longrightarrow> r < length (objects w) \<Longrightarrow>
   r < length (objects (fold (\<lambda>h. deliver h Call_dispose) hs w)) \<and>
   is_done (obj (objects (fold (\<lambda>h. deliver h Call_dispose) hs w) ! r))"
proof (induction hs arbitrary: w)
  case Nil
  then show ?case by simp
next
  case (Cons h hs)
  show ?case
  proof (cases "r = h")
    case True
    with Cons.prems deliver_dispose_done[of r w] show ?thesis
      by (simp add: fold_dispose_done_mono)
  next
    case False
    with Cons.prems have "r \<in> set hs" by simp
    moreover have "r < length (objects (deliver h Call_dispose w))"
      using Cons.prems by (simp add: deliver_length)
    ultimately show ?thesis using Cons.IH by simp
  qed
qed

lemma agent_dispose_resume_kept:
  "kept r w \<Longrightarrow> agent_dispose_resume Fulfilled w = Inr w' \<Longrightarrow>
   handlers w' = [] \<and> r < length (objects w') \<and> is_done (obj (objects w' ! r))"
  using fold_dispose_all[of r "handlers w" w] fold_dispose_done_mono[of r w "handlers w"]
  by (auto simp: agent_dispose_resume_def kept_def)

lemma handleMessage_kept: "kept r w \<Longrightarrow> kept r (handleMessage e now d w)"
  by (auto simp: handleMessage_def kept_def Let_def split: option.splits)

lemma handleMessage_sent_kept: "kept r w \<Longrightarrow> kept r (handleMessage_sent i x w)"
  by (auto simp: handleMessage_sent_def kept_def drop_task_def split: sum.splits)

lemma handleMessage_indicated_kept: "kept r w \<Longrightarrow> kept r (handleMessage_indicated i x w)"
proof -
  assume k: "kept r w"
  have "kept r ((drop_task i w)
      \<lparr>objects := objects w @ [s], handlers := handlers w @ [length (objects w)]\<rparr>)" for s
    using k by (auto simp: kept_def drop_task_def nth_append)
  moreover have "kept r (drop_task i w)"
    using k by (auto simp: kept_def drop_task_def)
  ultimately show ?thesis using k
    by (auto simp: handleMessage_indicated_def split: option.splits settled.splits
        intro: deliver_kept)
qed

lemma wstep_kept: "kept r w \<Longrightarrow> kept r (wstep i w)"
proof (cases i)
  case (Disconnected x)
  assume k: "kept r w"
  then have k': "kept r (w\<lparr>disposing := disposing w - 1\<rparr>)" by (simp add: kept_def)
  show ?thesis
  proof (cases x)
    case Fulfilled
    with Disconnected k agent_dispose_resume_kept[OF k'] show ?thesis
      by (auto simp: kept_def split: sum.splits)
  next
    case (Rejected e)
    with Disconnected k k' show ?thesis by (auto simp: agent_dispose_resume_def)
  qed
next
  case (Call_init k)
  assume "kept r w"
  then show ?thesis using Call_init by (auto simp: init_def kept_def)
next
  case Call_agent_dispose
  assume "kept r w"
  then show ?thesis using Call_agent_dispose by (auto simp: agent_dispose_def kept_def)
qed (auto intro: handleMessage_kept handleMessage_sent_kept handleMessage_indicated_kept
      deliver_kept)

lemma wexec_kept: "kept r w \<Longrightarrow> kept r (wexec ins w)"
  unfolding wexec_def by (induction ins arbitrary: w) (auto intro: wstep_kept)

lemma deliver_registry_ok: "registry_ok w \<Longrightarrow> registry_ok (deliver r i w)"
  by (cases "r < length (objects w)")
     (auto simp: deliver_eq deliver_out_of_range registry_ok_def removeHandler_def)

lemma wstep_registry_ok: "registry_ok w \<Longrightarrow> registry_ok (wstep i w)"
proof (cases i)
  case (Indicator_sent n x)
  assume k: "registry_ok w"
  have "registry_ok ((drop_task n w)
      \<lparr>objects := objects w @ [s], handlers := handlers w @ [length (objects w)]\<rparr>)" for s
    using k by (auto simp: registry_ok_def drop_task_def less_Suc_eq)
  moreover have "registry_ok (drop_task n w)"
    using k by (auto simp: registry_ok_def drop_task_def)
  ultimately show ?thesis using k Indicator_sent
    by (auto simp: handleMessage_indicated_def split: option.splits settled.splits
        intro: deliver_registry_ok)
next
  case (Disconnected x)
  assume "registry_ok w"
  then show ?thesis using Disconnected
    by (auto simp: agent_dispose_resume_def registry_ok_def split: sum.splits settled.splits)
qed (auto simp: init_def agent_dispose_def registry_ok_def handleMessage_def
      handleMessage_sent_def drop_task_def Let_def deliver_registry_ok[unfolded registry_ok_def]
      split: sum.splits option.splits)

lemma wexec_registry_ok: "registry_ok w \<Longrightarrow> registry_ok (wexec ins w)"
  unfolding wexec_def by (induction ins arbitrary: w) (auto intro: wstep_registry_ok)

lemma new_agent_registry_ok: "registry_ok (new_agent t)"
  by (simp add: registry_ok_def new_agent_def)

section \<open>The loop of run\<close>

lemma stream_texts_append [simp]: "stream_texts (xs @ ys) = stream_texts xs @ stream_texts ys"
  by (induction xs rule: stream_texts.induct) auto

lemma quiet_Nil [simp]: "quiet []"
  by (simp add: quiet_def)

lemma quiet_append [simp]: "quiet (xs @ ys) \<longleftrightarrow> quiet xs \<and> quiet ys"
  by (auto simp: quiet_def)

lemma dispose_quiet: "dispose h = (h', es) \<Longrightarrow> quiet es"
  by (auto simp: dispose_def quiet_def split: if_splits)

lemma stop_quiet: "handleStopGenerating ev h = (h', es, out) \<Longrightarrow> quiet es"
  by (auto simp: handleStopGenerating_def quiet_def split: if_splits option.splits)

lemma stop_resume_quiet: "handleStopGenerating_resume r h = (h', es, out) \<Longrightarrow> quiet es"
  by (auto simp: handleStopGenerating_resume_def dispose_def quiet_def
      split: if_splits settled.splits)

lemma handleError_quiet: "handleError e h = (h', es, out) \<Longrightarrow> quiet es"
  by (auto simp: handleError_def quiet_def split: if_splits)

lemma handleError_resume_quiet: "handleError_resume k r h = (h', es, out) \<Longrightarrow> quiet es"
  by (cases "(k, r, h)" rule: handleError_resume.cases)
     (auto simp: dispose_def quiet_def split: if_splits)

lemma run_finally_quiet:
  "run_finally h es out = (h', es', out') \<Longrightarrow> quiet es \<Longrightarrow> quiet es' \<and> out' = out"
  by (auto simp: run_finally_def split: prod.splits dest: dispose_quiet)

lemma run_catch_quiet: "run_catch e h = (h', es, out) \<Longrightarrow> quiet es \<and> past_loop (Some out)"
  by (auto simp: run_catch_def quiet_def[of "[_]"] split: if_splits prod.splits outcome.splits
      dest!: handleError_quiet dest: run_finally_quiet)

lemma run_resume_past:
  "past_loop (Some (Suspended k)) \<Longrightarrow> run_resume k a h = (h', es, out) \<Longrightarrow>
   quiet es \<and> past_loop (Some out)"
  apply (cases "(k, a, h)" rule: run_resume.cases)
  apply (auto simp: quiet_def[of "[_]"] split: if_splits prod.splits outcome.splits
      dest!: handleError_resume_quiet run_catch_quiet dest: run_finally_quiet)
  done

lemma react_past:
  "past_loop (running s) \<Longrightarrow> react i s = (s', es) \<Longrightarrow> quiet es \<and> past_loop (running s')"
  by (cases i)
     (auto split: option.splits outcome.splits prod.splits if_splits
       dest: run_resume_past stop_quiet stop_resume_quiet dispose_quiet)

lemma step_past:
  "past_loop (running s) \<Longrightarrow>
   past_loop (running (step i s)) \<and> (\<exists>es. calls (step i s) = calls s @ es \<and> quiet es)"
proof -
  assume a: "past_loop (running s)"
  obtain s' es where r: "react i s = (s', es)" by (cases "react i s")
  from react_past[OF a r] react_calls[OF r] show ?thesis
    by (auto simp: step_def r)
qed

lemma exec_past:
  "past_loop (running s) \<Longrightarrow>
   past_loop (running (exec ins s)) \<and> (\<exists>es. calls (exec ins s) = calls s @ es \<and> quiet es)"
proof (induction ins arbitrary: s)
  case Nil
  then show ?case by (simp add: exec_def)
next
  case (Cons i ins)
  from step_past[OF Cons.prems, of i] obtain es where
    p: "past_loop (running (step i s))" and c: "calls (step i s) = calls s @ es" and q: "quiet es"
    by blast
  from Cons.IH[OF p] obtain es' where
    "past_loop (running (exec ins (step i s)))"
    "calls (exec ins (step i s)) = calls (step i s) @ es'" "quiet es'"
    by blast
  with c q show ?case by (auto simp: exec_def)
qed

lemma run_resume_grows:
  "\<not> past_loop (Some (Suspended k)) \<Longrightarrow> run_resume k a h = (h', es, out) \<Longrightarrow>
   grows (Some (Suspended k)) es (Some out)"
  apply (cases "(k, a, h)" rule: run_resume.cases)
  apply (auto simp: after_loop_def grows_def split: if_splits sum.splits dest!: run_catch_quiet)
  apply (auto simp: quiet_def)
  done

lemma react_grows:
  "\<not> past_loop (running s) \<Longrightarrow> react i s = (s', es) \<Longrightarrow> grows (running s) es (running s')"
proof (cases i)
  case Call_run
  assume "\<not> past_loop (running s)" "react i s = (s', es)"
  with Call_run show ?thesis
    by (auto simp: run_def grows_def split: option.splits)
next
  case (Answer a)
  assume "\<not> past_loop (running s)" "react i s = (s', es)"
  with Answer show ?thesis
    by (auto split: option.splits outcome.splits prod.splits dest: run_resume_grows)
       (auto simp: grows_def)
next
  case (Stop_event ev)
  assume "\<not> past_loop (running s)" "react i s = (s', es)"
  with Stop_event show ?thesis
    by (auto split: prod.splits outcome.splits dest!: stop_quiet)
       (auto simp: grows_def quiet_def)
next
  case (Stop_answer r)
  assume "\<not> past_loop (running s)" "react i s = (s', es)"
  with Stop_answer show ?thesis
    by (auto split: prod.splits if_splits dest!: stop_resume_quiet)
       (auto simp: grows_def quiet_def)
next
  case Call_dispose
  assume "\<not> past_loop (running s)" "react i s = (s', es)"
  with Call_dispose show ?thesis
    by (auto split: prod.splits dest!: dispose_quiet) (auto simp: grows_def quiet_def)
qed

lemma step_monotone_updates: "monotone_updates s \<Longrightarrow> monotone_updates (step i s)"
proof (cases "past_loop (running s)")
  case True
  assume m: "monotone_updates s"
  from step_past[OF True, of i] m show ?thesis
    by (auto simp: monotone_updates_def quiet_def)
next
  case False
  assume m: "monotone_updates s"
  obtain s' es where r: "react i s = (s', es)" by (cases "react i s")
  have st: "step i s = s'\<lparr>calls := calls s @ es\<rparr>"
    using react_calls[OF r] by (simp add: step_def r)
  from react_grows[OF False r] m False show ?thesis
    unfolding st monotone_updates_def grows_def
    by (auto simp: sorted_wrt_append dest: prefix_order.trans)
qed

lemma exec_monotone_updates: "monotone_updates s \<Longrightarrow> monotone_updates (exec ins s)"
  unfolding exec_def by (induction ins arbitrary: s) (auto intro: step_monotone_updates)

lemma prompted_monotone_updates: "monotone_updates (prompted p m)"
  by (simp add: monotone_updates_def prompted_def new_handler_def)

lemma run_resume_acc:
  "run_resume k a h = (h', es, out) \<Longrightarrow> \<not> past_loop (Some out) \<Longrightarrow>
   acc (Some out) = acc (Some (Suspended k)) @
     concat (case (a, k) of
        (Chunk (Inr chunkText) now, Iterating fullResponse) \<Rightarrow>
          if is_done h then [] else [chunkText]
      | _ \<Rightarrow> [])"
  apply (cases "(k, a, h)" rule: run_resume.cases)
  apply (auto simp: after_loop_def split: if_splits sum.splits prod.splits outcome.splits
      dest!: run_catch_quiet dest: run_finally_out)
  done

lemma step_acc:
  "\<not> past_loop (running (step i s)) \<Longrightarrow>
   acc (running (step i s)) = acc (running s) @ concat (taken i s)"
proof (cases i)
  case (Answer a)
  assume np: "\<not> past_loop (running (step i s))"
  show ?thesis
  proof (cases "running s")
    case None
    then show ?thesis using Answer
      by (simp add: step_def taken_def split: answer.splits sum.splits)
  next
    case (Some out)
    show ?thesis
    proof (cases out)
      case (Suspended k)
      obtain h' es out' where r: "run_resume k a (obj s) = (h', es, out')"
        by (cases "run_resume k a (obj s)")
      with np Answer Some Suspended have "\<not> past_loop (Some out')" by (simp add: step_def)
      from run_resume_acc[OF r this] show ?thesis using Answer Some Suspended r
        by (auto simp: step_def taken_def split: answer.splits sum.splits run_pc.splits)
    qed (use Answer Some np in \<open>auto simp: step_def taken_def split: answer.splits sum.splits\<close>)
  qed
qed (auto simp: step_def taken_def run_def
      split: option.splits prod.splits outcome.splits if_splits)

lemma exec_acc:
  "\<not> past_loop (running (exec ins s)) \<Longrightarrow>
   acc (running (exec ins s)) = acc (running s) @ concat (consumed ins s)"
proof (induction ins arbitrary: s)
  case Nil
  then show ?case by (simp add: exec_def)
next
  case (Cons i ins)
  have e: "exec (i # ins) s = exec ins (step i s)" by (simp add: exec_def)
  have np: "\<not> past_loop (running (step i s))"
    using Cons.prems exec_past[of "step i s" ins] unfolding e by blast
  from Cons.IH[of "step i s"] Cons.prems step_acc[OF np] show ?case
    unfolding e by simp
qed

lemma step_Exhausted:
  "running s = Some (Suspended (Iterating f)) \<Longrightarrow>
   running (step (Answer Exhausted) s) = Some (Suspended Final_update) \<and>
   calls (step (Answer Exhausted) s) =
     calls s @ [PartialUpdateMessage (id' (message (obj s))) f None]"
  by (simp add: step_def after_loop_def)

lemma flush_of_past [simp]: "past_loop after \<Longrightarrow> flush_of before after = []"
  by (cases "(before, after)" rule: flush_of.cases) auto

lemma throttled_past: "past_loop (running s) \<Longrightarrow> throttled_updates ins s = []"
proof (induction ins arbitrary: s)
  case Nil
  then show ?case by simp
next
  case (Cons i ins)
  from step_past[OF Cons.prems, of i] have p: "past_loop (running (step i s))" by simp
  with Cons.IH[OF p] show ?case by simp
qed

lemma run_resume_bound:
  "run_resume k a h = (h', es, out) \<Longrightarrow> \<not> past_loop (Some out) \<Longrightarrow>
   (case flush_of (Some (Suspended k)) (Some out) of
      [] \<Rightarrow> bound_of (Some out) h' = bound_of (Some (Suspended k)) h
    | now # rest \<Rightarrow>
        rest = [] \<and> now - bound_of (Some (Suspended k)) h > 1000 \<and> bound_of (Some out) h' = now)"
  apply (cases "(k, a, h)" rule: run_resume.cases)
  apply (auto simp: after_loop_def split: if_splits sum.splits prod.splits outcome.splits
      dest!: run_catch_quiet dest: run_finally_out)
  done

lemma step_bound_other:
  "(\<forall>a. i \<noteq> Answer a) \<Longrightarrow>
   flush_of (running s) (running (step i s)) = [] \<and>
   bound_of (running (step i s)) (obj (step i s)) = bound_of (running s) (obj s)"
proof (cases i)
  case Call_run
  then show ?thesis
    by (cases "running s" rule: past_loop.cases) (auto simp: step_def run_def)
next
  case (Stop_event ev)
  then show ?thesis
    by (cases "running s" rule: past_loop.cases)
       (auto simp: step_def handleStopGenerating_def split: option.splits if_splits)
next
  case (Stop_answer r)
  then show ?thesis
    by (cases "running s" rule: past_loop.cases)
       (auto simp: step_def handleStopGenerating_resume_def dispose_def
         split: settled.splits if_splits)
next
  case Call_dispose
  then show ?thesis
    by (cases "running s" rule: past_loop.cases) (auto simp: step_def dispose_def)
qed auto

lemma step_bound:
  "\<not> past_loop (running (step i s)) \<Longrightarrow>
   (case flush_of (running s) (running (step i s)) of
      [] \<Rightarrow> bound_of (running (step i s)) (obj (step i s)) = bound_of (running s) (obj s)
    | now # rest \<Rightarrow>
        rest = [] \<and> now - bound_of (running s) (obj s) > 1000 \<and>
        bound_of (running (step i s)) (obj (step i s)) = now)"
proof (cases i)
  case (Answer a)
  assume np: "\<not> past_loop (running (step i s))"
  show ?thesis
  proof (cases "running s")
    case None
    then show ?thesis using Answer by (simp add: step_def)
  next
    case (Some out)
    show ?thesis
    proof (cases out)
      case (Suspended k)
      obtain h' es out' where r: "run_resume k a (obj s) = (h', es, out')"
        by (cases "run_resume k a (obj s)")
      have st: "running (step i s) = Some out'" "obj (step i s) = h'"
        using Answer Some Suspended r by (simp_all add: step_def)
      with np have "\<not> past_loop (Some out')" by simp
      from run_resume_bound[OF r this] show ?thesis
        unfolding st Some Suspended by (auto split: list.splits)
    qed (use Answer Some np in \<open>auto simp: step_def\<close>)
  qed
qed (use step_bound_other[of i s] in auto)

lemma throttled_spaced:
  "sorted_wrt (\<lambda>a b. b - a > 1000) (throttled_updates ins s)
   \<and> (\<forall>t \<in> set (throttled_updates ins s). t - bound_of (running s) (obj s) > 1000)"
proof (induction ins arbitrary: s)
  case Nil
  then show ?case by simp
next
  case (Cons i ins)
  show ?case
  proof (cases "past_loop (running (step i s))")
    case True
    with throttled_past[OF True, of ins] show ?thesis by simp
  next
    case False
    from step_bound[OF False] Cons.IH[of "step i s"] show ?thesis
      by (auto split: list.splits)
  qed
qed

lemma no_request_Nil [simp]: "no_request []"
  by (simp add: no_request_def)

lemma no_request_append [simp]: "no_request (xs @ ys) \<longleftrightarrow> no_request xs \<and> no_request ys"
  by (auto simp: no_request_def)

lemma quiet_no_request: "quiet es \<Longrightarrow> no_request es"
  by (simp add: quiet_def no_request_def)

lemma past_loop_requested: "past_loop out \<Longrightarrow> \<not> unrequested out"
  by (cases out rule: past_loop.cases) auto

lemma run_resume_unrequested:
  "run_resume k a h = (h', es, out) \<Longrightarrow> unrequested (Some out) \<Longrightarrow>
   unrequested (Some (Suspended k)) \<and> no_request es"
  apply (cases "(k, a, h)" rule: run_resume.cases)
  apply (auto simp: after_loop_def split: if_splits sum.splits prod.splits outcome.splits
      dest!: run_catch_quiet dest: run_finally_out past_loop_requested)
  done

lemma react_unrequested:
  "react i s = (s', es) \<Longrightarrow> unrequested (running s') \<Longrightarrow>
   unrequested (running s) \<and> no_request es"
proof (cases i)
  case Call_run
  assume "react i s = (s', es)" "unrequested (running s')"
  with Call_run show ?thesis
    by (auto simp: run_def no_request_def split: option.splits)
next
  case (Answer a)
  assume "react i s = (s', es)" "unrequested (running s')"
  with Answer show ?thesis
    by (auto split: option.splits outcome.splits prod.splits dest: run_resume_unrequested)
next
  case (Stop_event ev)
  assume "react i s = (s', es)" "unrequested (running s')"
  with Stop_event show ?thesis
    by (auto split: prod.splits outcome.splits dest!: stop_quiet quiet_no_request)
next
  case (Stop_answer r)
  assume "react i s = (s', es)" "unrequested (running s')"
  with Stop_answer show ?thesis
    by (auto split: prod.splits if_splits dest!: stop_resume_quiet quiet_no_request)
next
  case Call_dispose
  assume "react i s = (s', es)" "unrequested (running s')"
  with Call_dispose show ?thesis
    by (auto split: prod.splits dest!: dispose_quiet quiet_no_request)
qed

lemma step_unrequested:
  "unrequested (running (step i s)) \<Longrightarrow> no_request (calls s) \<Longrightarrow>
   unrequested (running s) \<and> no_request (calls (step i s))"
proof -
  assume a: "unrequested (running (step i s))" and b: "no_request (calls s)"
  obtain s' es where r: "react i s = (s', es)" by (cases "react i s")
  from a have "unrequested (running s')" by (simp add: step_def r)
  from react_unrequested[OF r this] react_calls[OF r] b show ?thesis
    by (simp add: step_def r)
qed

lemma exec_unrequested:
  "unrequested (running (exec ins s)) \<Longrightarrow> no_request (calls s) \<Longrightarrow>
   no_request (calls (exec ins s))"
proof (induction ins arbitrary: s rule: rev_induct)
  case Nil
  then show ?case by (simp add: exec_def)
next
  case (snoc i ins)
  have e: "exec (ins @ [i]) s = step i (exec ins s)" by (simp add: exec_def)
  show ?case
  proof (cases "unrequested (running (exec ins s))")
    case True
    from snoc.IH[OF True snoc.prems(2)] snoc.prems(1) show ?thesis
      unfolding e by (simp add: step_unrequested)
  next
    case False
    obtain s' es where r: "react i (exec ins s) = (s', es)" by (cases "react i (exec ins s)")
    from snoc.prems(1) have "unrequested (running s')" unfolding e by (simp add: step_def r)
    from react_unrequested[OF r this] False show ?thesis by simp
  qed
qed

lemma exec_append: "exec (xs @ ys) s = exec ys (exec xs s)"
  by (simp add: exec_def)

lemma exec_Cons: "exec (i # ins) s = exec ins (step i s)"
  by (simp add: exec_def)

lemma run_catch_error_path:
  "\<not> (instanceof_Error e \<and> error_name e = ''AbortError'') \<Longrightarrow> \<not> is_done h \<Longrightarrow>
   run_catch e h =
     (h, [SendEvent_update AI_STATE_ERROR (cid (message h)) (id' (message h))],
      Suspended (Failing (Error_event e)))"
  by (auto simp: run_catch_def handleError_def)

lemma run_resume_fails:
  "in_try k \<Longrightarrow> a = Settled (Rejected e) \<or> (\<exists>f now. k = Iterating f \<and> a = Chunk (Inl e) now) \<Longrightarrow>
   \<not> is_done h \<Longrightarrow> run_resume k a h = run_catch e h"
  by (cases "(k, a, h)" rule: run_resume.cases) auto

section \<open>Which steps issue an update of the text\<close>

lemma run_resume_stream_texts:
  "stream_texts (fst (snd (run_resume k a h))) =
     (case (a, k) of
        (Chunk c now, Iterating f) \<Rightarrow>
          if is_done h then [f]
          else (case c of
                  Inl e \<Rightarrow> []
                | Inr t \<Rightarrow> if t \<noteq> [] \<and> now - last_update_time h > 1000 then [f @ t] else [])
      | (Exhausted, Iterating f) \<Rightarrow> [f]
      | _ \<Rightarrow> [])"
proof (cases "past_loop (Some (Suspended k))")
  case True
  obtain h' es out where r: "run_resume k a h = (h', es, out)"
    by (cases "run_resume k a h")
  from run_resume_past[OF True r] have "stream_texts es = []" by (simp add: quiet_def)
  with True r show ?thesis
    by (cases k) (auto split: answer.splits)
next
  case False
  have c: "stream_texts (fst (snd (run_catch e h))) = []" for e
  proof -
    obtain h' es out where r: "run_catch e h = (h', es, out)" by (cases "run_catch e h")
    from run_catch_quiet[OF r] show ?thesis by (simp add: r quiet_def)
  qed
  from False show ?thesis
    by (cases "(k, a, h)" rule: run_resume.cases)
       (auto simp: after_loop_def c split: sum.splits)
qed

lemma react_stream_texts:
  "stream_texts (snd (react i s)) =
     (case (i, running s) of
        (Answer (Chunk c now), Some (Suspended (Iterating f))) \<Rightarrow>
          if is_done (obj s) then [f]
          else (case c of
                  Inl e \<Rightarrow> []
                | Inr t \<Rightarrow>
                    if t \<noteq> [] \<and> now - last_update_time (obj s) > 1000 then [f @ t] else [])
      | (Answer Exhausted, Some (Suspended (Iterating f))) \<Rightarrow> [f]
      | _ \<Rightarrow> [])"
proof (cases i)
  case Call_run
  then show ?thesis by (auto simp: run_def split: option.splits)
next
  case (Answer a)
  show ?thesis
  proof (cases "running s")
    case None
    with Answer show ?thesis by (simp split: answer.splits)
  next
    case (Some out)
    show ?thesis
    proof (cases out)
      case (Suspended k)
      have "snd (react (Answer a) s) = fst (snd (run_resume k a (obj s)))"
        using Some Suspended by (simp split: prod.splits)
      with run_resume_stream_texts[of k a "obj s"] Answer Some Suspended show ?thesis
        by (simp split: answer.splits run_pc.splits)
    qed (use Answer Some in \<open>auto split: answer.splits\<close>)
  qed
next
  case (Stop_event ev)
  obtain h es out where r: "handleStopGenerating ev (obj s) = (h, es, out)"
    by (cases "handleStopGenerating ev (obj s)")
  from stop_quiet[OF r] have "stream_texts es = []" by (simp add: quiet_def)
  with Stop_event r show ?thesis by (cases out) auto
next
  case (Stop_answer x)
  obtain h es out where r: "handleStopGenerating_resume x (obj s) = (h, es, out)"
    by (cases "handleStopGenerating_resume x (obj s)")
  from stop_resume_quiet[OF r] have "stream_texts es = []" by (simp add: quiet_def)
  with Stop_answer r show ?thesis by auto
next
  case Call_dispose
  obtain h es where r: "dispose (obj s) = (h, es)" by (cases "dispose (obj s)")
  from dispose_quiet[OF r] have "stream_texts es = []" by (simp add: quiet_def)
  with Call_dispose r show ?thesis by auto
qed

lemma step_calls: "calls (step i s) = calls s @ snd (react i s)"
proof -
  obtain s' es where r: "react i s = (s', es)" by (cases "react i s")
  from react_calls[OF r] show ?thesis by (simp add: step_def r)
qed

lemma issued_at_iff:
  "issued_at i s =
     (case (i, running s) of
        (Answer (Chunk (Inr t) now), Some (Suspended (Iterating f))) \<Rightarrow>
          if \<not> is_done (obj s) \<and> t \<noteq> [] \<and> now - last_update_time (obj s) > 1000
          then [now] else []
      | _ \<Rightarrow> [])"
  unfolding issued_at_def react_stream_texts
  by (auto split: input.splits answer.splits option.splits outcome.splits run_pc.splits
      sum.splits)

lemma flush_of_iff:
  "flush_of (running s) (running (step i s)) =
     (case (i, running s) of
        (Answer (Chunk (Inr t) now), Some (Suspended (Iterating f))) \<Rightarrow>
          if \<not> is_done (obj s) \<and> t \<noteq> [] \<and> now - last_update_time (obj s) > 1000
          then [now] else []
      | _ \<Rightarrow> [])"
proof (cases "\<exists>a. i = Answer a")
  case False
  with step_bound_other[of i s] show ?thesis
    by (cases i) auto
next
  case True
  then obtain a where i: "i = Answer a" by blast
  show ?thesis
  proof (cases "running s" rule: past_loop.cases)
    case (4 fullResponse)
    obtain h' es out where r: "run_resume (Iterating fullResponse) a (obj s) = (h', es, out)"
      by (cases "run_resume (Iterating fullResponse) a (obj s)")
    have st: "running (step (Answer a) s) = Some out" using 4 r by (simp add: step_def)
    from r show ?thesis unfolding i st 4
      by (cases "(Iterating fullResponse, a, obj s)" rule: run_resume.cases)
         (auto simp: after_loop_def split: if_splits sum.splits
           dest!: run_catch_quiet intro: flush_of_past)
  qed (auto simp: i step_def split: answer.splits sum.splits)
qed

lemma issued_at_flush_of: "issued_at i s = flush_of (running s) (running (step i s))"
  by (simp only: issued_at_iff flush_of_iff)

lemma update_times_throttled: "update_times ins s = throttled_updates ins s"
  by (induction ins arbitrary: s) (simp_all add: issued_at_flush_of)

section \<open>The properties\<close>

lemmas handler_eval =
  exec_def step_def prompted_def new_handler_def setPrompt_def run_def run_catch_def
  run_finally_def after_loop_def dispose_def handleError_def handleStopGenerating_def
  handleStopGenerating_resume_def msg1_def msg2_def stop_for_def quota_error_def
  abort_error_def

lemmas agent_eval =
  wexec_def two_in_flight_def new_agent_def init_def handleMessage_def user_event_def
  handleMessage_sent_def handleMessage_indicated_def drop_task_def deliver_def
  onDispose_def removeHandler_def agent_dispose_def agent_dispose_resume_def Let_def

text \<open>
  Claim C1. Whatever happens to a handler, in whatever order (\<open>ins\<close> is any list of inputs:
  answers to \<^verbatim>\<open>run\<close>, stop events, disposals), the texts of the updates that carry
  \<^verbatim>\<open>fullResponse\<close> form a chain: each is a prefix of every later one. And whenever the
  stream ends while \<^verbatim>\<open>run\<close> waits for its next chunk, \<^verbatim>\<open>fullResponse\<close> is the
  concatenation of the chunk texts the loop received while \<open>is_done\<close> was false, the segment
  issues exactly one update, with that text and with no look at the clock, and nothing that
  happens afterwards (\<open>ins'\<close>) adds another such update.
\<close>

theorem monotonic_accumulation:
  "sorted_wrt prefix (stream_texts (calls (exec ins (prompted p m))))
   \<and> (running (exec ins (prompted p m)) = Some (Suspended (Iterating fullResponse)) \<longrightarrow>
        fullResponse = concat (consumed ins (prompted p m))
        \<and> snd (react (Answer Exhausted) (exec ins (prompted p m))) =
            [PartialUpdateMessage (id' (message (obj (exec ins (prompted p m))))) fullResponse None]
        \<and> stream_texts (calls (exec (ins @ Answer Exhausted # ins') (prompted p m)))
            = stream_texts (calls (exec ins (prompted p m))) @
              [concat (consumed ins (prompted p m))])"
proof -
  let ?s = "exec ins (prompted p m)"
  have a: "sorted_wrt prefix (stream_texts (calls ?s))"
    using exec_monotone_updates[OF prompted_monotone_updates, of ins p m]
    by (simp add: monotone_updates_def)
  have b: "fullResponse = concat (consumed ins (prompted p m))
      \<and> snd (react (Answer Exhausted) ?s) =
          [PartialUpdateMessage (id' (message (obj ?s))) fullResponse None]
      \<and> stream_texts (calls (exec (ins @ Answer Exhausted # ins') (prompted p m)))
          = stream_texts (calls ?s) @ [concat (consumed ins (prompted p m))]"
    if it: "running ?s = Some (Suspended (Iterating fullResponse))"
  proof -
    have "acc (running (prompted p m)) = []"
      by (simp add: prompted_def new_handler_def)
    moreover have "acc (running ?s) = acc (running (prompted p m)) @ concat (consumed ins (prompted p m))"
      by (rule exec_acc) (simp add: it)
    ultimately have f: "fullResponse = concat (consumed ins (prompted p m))"
      unfolding it by simp
    have r: "snd (react (Answer Exhausted) ?s) =
        [PartialUpdateMessage (id' (message (obj ?s))) fullResponse None]"
      by (simp add: it after_loop_def)
    have e: "exec (ins @ Answer Exhausted # ins') (prompted p m) =
        exec ins' (step (Answer Exhausted) ?s)"
      by (simp add: exec_def)
    from step_Exhausted[OF it] exec_past[of "step (Answer Exhausted) ?s" ins']
    obtain es where "calls (exec ins' (step (Answer Exhausted) ?s))
        = (calls ?s @ [PartialUpdateMessage (id' (message (obj ?s))) fullResponse None]) @ es"
      "quiet es"
      by auto
    then have "stream_texts (calls (exec (ins @ Answer Exhausted # ins') (prompted p m)))
        = stream_texts (calls ?s) @ [fullResponse]"
      unfolding e by (simp add: quiet_def)
    with f r show ?thesis by simp
  qed
  from a b show ?thesis by blast
qed

theorem monotonic_accumulation_witness:
  "running (exec streamed (prompted ''Summarize X'' msg1)) =
     Some (Suspended (Iterating ''The summary is Y.''))
   \<and> stream_texts (calls (exec
        (streamed @ Answer Exhausted # [Answer (Settled Fulfilled), Answer (Settled Fulfilled)])
        (prompted ''Summarize X'' msg1))) = [''The '', ''The summary is Y.'']"
proof -
  have r: "running (exec streamed (prompted ''Summarize X'' msg1)) =
      Some (Suspended (Iterating ''The summary is Y.''))"
    by (simp add: streamed_def handler_eval)
  have c: "stream_texts (calls (exec streamed (prompted ''Summarize X'' msg1))) = [''The '']"
    by (simp add: streamed_def handler_eval)
  have k: "concat (consumed streamed (prompted ''Summarize X'' msg1)) = ''The summary is Y.''"
    by (simp add: streamed_def taken_def handler_eval)
  from monotonic_accumulation[of streamed "''Summarize X''" msg1 "''The summary is Y.''"
      "[Answer (Settled Fulfilled), Answer (Settled Fulfilled)]"] r c k
  show ?thesis by simp
qed

text \<open>
  Claim C2. \<^verbatim>\<open>dispose\<close> on a handler that is not done sets \<open>is_done\<close>, unregisters the
  stop listener and calls \<^verbatim>\<open>onDispose\<close>; on a handler that is done it returns the handler
  unchanged and issues no call. Once a handler is done it stays done through every sequence
  \<open>ins\<close> of run segments, stop events, resumed stop listeners and disposals, so each later
  \<^verbatim>\<open>dispose\<close> is of the second kind. Over every such sequence from construction on,
  \<^verbatim>\<open>onDispose\<close> has been called once if the handler is done and not at all otherwise, and
  it has been called exactly once when \<^verbatim>\<open>dispose\<close> was called at all. In the agent, the
  callback of a handler \<open>r\<close> that was not done filters \<open>r\<close> out of the registry, and disposing a
  handler that was done changes nothing.
\<close>

theorem dispose_exactly_once:
  "(\<not> is_done h \<longrightarrow>
      dispose h = (h\<lparr>is_done := True\<rparr>, [Off ''ai_indicator.stop'', OnDispose]))
   \<and> (is_done h \<longrightarrow> dispose h = (h, []))
   \<and> (is_done (obj s) \<longrightarrow>
        is_done (obj (exec ins s)) \<and> react Call_dispose (exec ins s) = (exec ins s, []))
   \<and> count_list (calls (exec ins (prompted p m))) OnDispose =
        (if is_done (obj (exec ins (prompted p m))) then 1 else 0)
   \<and> (Call_dispose \<in> set ins \<longrightarrow>
        count_list (calls (exec ins (prompted p m))) OnDispose = 1)
   \<and> (r < length (objects w) \<longrightarrow>
        (if is_done (obj (objects w ! r)) then deliver r Call_dispose w = w
         else handlers (deliver r Call_dispose w) =
                filter (\<lambda>handler. handler \<noteq> r) (handlers w)))"
proof -
  have a: "\<not> is_done h \<longrightarrow>
      dispose h = (h\<lparr>is_done := True\<rparr>, [Off ''ai_indicator.stop'', OnDispose])"
    by (simp add: dispose_def)
  have b: "is_done h \<longrightarrow> dispose h = (h, [])"
    by (simp add: dispose_def)
  have c: "is_done (obj s) \<longrightarrow>
      is_done (obj (exec ins s)) \<and> react Call_dispose (exec ins s) = (exec ins s, [])"
    using exec_done_mono[of s ins] by (auto simp: dispose_def)
  have d: "count_list (calls (exec ins (prompted p m))) OnDispose =
      (if is_done (obj (exec ins (prompted p m))) then 1 else 0)"
    using exec_disposed_once[OF prompted_disposed_once, of ins p m]
    by (simp add: disposed_once_def)
  have e: "Call_dispose \<in> set ins \<longrightarrow>
      count_list (calls (exec ins (prompted p m))) OnDispose = 1"
    using d exec_Call_dispose_done[of ins "prompted p m"] by simp
  have f: "r < length (objects w) \<longrightarrow>
      (if is_done (obj (objects w ! r)) then deliver r Call_dispose w = w
       else handlers (deliver r Call_dispose w) =
              filter (\<lambda>handler. handler \<noteq> r) (handlers w))"
    by (auto simp: deliver_def dispose_def onDispose_def removeHandler_def)
  from a b c d e f show ?thesis by blast
qed

theorem dispose_exactly_once_witness:
  "dispose (obj (prompted ''Summarize X'' msg1)) =
     ((obj (prompted ''Summarize X'' msg1))\<lparr>is_done := True\<rparr>,
      [Off ''ai_indicator.stop'', OnDispose])
   \<and> dispose disposed_handler = (disposed_handler, [])
   \<and> Call_dispose \<in> set raced
   \<and> count_list (calls (exec raced (prompted ''Summarize X'' msg1))) OnDispose = 1
   \<and> handlers (wexec two_in_flight (new_agent 0)) = [0, 1]
   \<and> handlers (deliver 0 Call_dispose (wexec two_in_flight (new_agent 0))) = [1]"
proof -
  have n: "\<not> is_done (obj (prompted ''Summarize X'' msg1))"
    by (simp add: handler_eval)
  have y: "is_done disposed_handler"
    by (simp add: disposed_handler_def)
  have i: "Call_dispose \<in> set raced"
    by (simp add: raced_def)
  have w: "handlers (wexec two_in_flight (new_agent 0)) = [0, 1]"
    "0 < length (objects (wexec two_in_flight (new_agent 0)))"
    "\<not> is_done (obj (objects (wexec two_in_flight (new_agent 0)) ! 0))"
    by (simp_all add: agent_eval handler_eval)
  from dispose_exactly_once[where h = "obj (prompted ''Summarize X'' msg1)" and ins = raced
      and p = "''Summarize X''" and m = msg1 and r = 0
      and w = "wexec two_in_flight (new_agent 0)"]
    dispose_exactly_once[where h = disposed_handler and ins = raced
      and p = "''Summarize X''" and m = msg1 and r = 0
      and w = "wexec two_in_flight (new_agent 0)"]
    n y i w
  show ?thesis by simp
qed

text \<open>
  Claim C3, as stated, fails. The await of the generating indicator (line 27) stands inside
  the \<^verbatim>\<open>try\<close> block: when it is rejected with an ordinary error, \<^verbatim>\<open>run\<close> takes the
  error path and ends without ever calling \<^verbatim>\<open>generateContentStream\<close>.
\<close>

theorem generating_failure_counterexample:
  "calls (exec generating_fails (prompted ''Summarize X'' msg1)) =
     [On ''ai_indicator.stop'',
      SendEvent_update AI_STATE_GENERATING ''messaging:c1'' ''m1'',
      SendEvent_update AI_STATE_ERROR ''messaging:c1'' ''m1'',
      PartialUpdateMessage ''m1'' ''quota exceeded'' (Some ''Error: quota exceeded''),
      Off ''ai_indicator.stop'', OnDispose]
   \<and> running (exec generating_fails (prompted ''Summarize X'' msg1)) = Some Returned"
  by (simp add: generating_fails_def handler_eval)

text \<open>
  Claim C3, amended. When the generating indicator is rejected, whatever happened before
  (\<open>ins\<close>) and whatever happens afterwards (\<open>ins'\<close>), the handler never asks the model for a
  stream. The rejection enters the catch block: a clear indicator for an
  \<^verbatim>\<open>AbortError\<close>, nothing for any other error when the handler is done, and the error
  indicator otherwise.
\<close>

theorem generating_failure_ends_run:
  "running (exec ins (prompted p m)) = Some (Suspended Generating) \<longrightarrow>
     no_request (calls (exec (ins @ Answer (Settled (Rejected e)) # ins') (prompted p m)))
     \<and> past_loop (running (exec (ins @ Answer (Settled (Rejected e)) # ins') (prompted p m)))
     \<and> snd (react (Answer (Settled (Rejected e))) (exec ins (prompted p m))) =
         (if instanceof_Error e \<and> error_name e = ''AbortError''
          then [SendEvent_clear (cid (message (obj (exec ins (prompted p m)))))
                  (id' (message (obj (exec ins (prompted p m)))))]
          else if is_done (obj (exec ins (prompted p m))) then []
          else [SendEvent_update AI_STATE_ERROR (cid (message (obj (exec ins (prompted p m)))))
                  (id' (message (obj (exec ins (prompted p m)))))])"
proof
  let ?s = "exec ins (prompted p m)"
  let ?i = "Answer (Settled (Rejected e))"
  assume g: "running ?s = Some (Suspended Generating)"
  have "no_request (calls (prompted p m))"
    by (simp add: no_request_def prompted_def new_handler_def)
  with g have n: "no_request (calls ?s)"
    by (simp add: exec_unrequested)
  obtain h' es out where c: "run_catch e (obj ?s) = (h', es, out)"
    by (cases "run_catch e (obj ?s)")
  from run_catch_quiet[OF c] have q: "quiet es" and p: "past_loop (Some out)" by simp_all
  have st: "running (step ?i ?s) = Some out" "calls (step ?i ?s) = calls ?s @ es"
    using g c by (simp_all add: step_def)
  from exec_past[of "step ?i ?s" ins'] p st obtain es' where
    "past_loop (running (exec ins' (step ?i ?s)))"
    "calls (exec ins' (step ?i ?s)) = (calls ?s @ es) @ es'" "quiet es'"
    by auto
  with n q have a: "no_request (calls (exec (ins @ ?i # ins') (prompted p m)))"
    and b: "past_loop (running (exec (ins @ ?i # ins') (prompted p m)))"
    by (simp_all add: exec_append exec_Cons quiet_no_request)
  have "snd (react ?i ?s) =
      (if instanceof_Error e \<and> error_name e = ''AbortError''
       then [SendEvent_clear (cid (message (obj ?s))) (id' (message (obj ?s)))]
       else if is_done (obj ?s) then []
       else [SendEvent_update AI_STATE_ERROR (cid (message (obj ?s))) (id' (message (obj ?s)))])"
    using g by (simp add: run_catch_def handleError_def run_finally_def dispose_def)
  with a b show "no_request (calls (exec (ins @ ?i # ins') (prompted p m)))
     \<and> past_loop (running (exec (ins @ ?i # ins') (prompted p m)))
     \<and> snd (react ?i ?s) =
         (if instanceof_Error e \<and> error_name e = ''AbortError''
          then [SendEvent_clear (cid (message (obj ?s))) (id' (message (obj ?s)))]
          else if is_done (obj ?s) then []
          else [SendEvent_update AI_STATE_ERROR (cid (message (obj ?s))) (id' (message (obj ?s)))])"
    by simp
qed

theorem generating_failure_ends_run_witness:
  "running (exec [Call_run] (prompted ''Summarize X'' msg1)) = Some (Suspended Generating)
   \<and> no_request (calls (exec generating_fails (prompted ''Summarize X'' msg1)))
   \<and> snd (react (Answer (Settled (Rejected quota_error)))
        (exec [Call_run] (prompted ''Summarize X'' msg1))) =
       [SendEvent_update AI_STATE_ERROR ''messaging:c1'' ''m1'']"
proof -
  have g: "running (exec [Call_run] (prompted ''Summarize X'' msg1)) = Some (Suspended Generating)"
    by (simp add: handler_eval)
  have o: "obj (exec [Call_run] (prompted ''Summarize X'' msg1)) =
      \<lparr>message_text = ''Summarize X'', last_update_time = 0, is_done = False,
       abortController = Some False, message = msg1\<rparr>"
    by (simp add: exec_def step_def prompted_def new_handler_def setPrompt_def run_def)
  have l: "generating_fails =
      [Call_run] @ Answer (Settled (Rejected quota_error)) #
        [Answer (Settled Fulfilled), Answer (Settled Fulfilled)]"
    by (simp add: generating_fails_def)
  from generating_failure_ends_run[where ins = "[Call_run]" and p = "''Summarize X''"
      and m = msg1 and e = quota_error
      and ins' = "[Answer (Settled Fulfilled), Answer (Settled Fulfilled)]"] g
  show ?thesis unfolding l[symmetric] o by (simp add: quota_error_def msg1_def)
qed

text \<open>
  Claim C4 does not hold of the code. The loop leaves with \<^verbatim>\<open>break\<close> when it finds
  \<open>is_done\<close> set (line 45), and the code after the loop then issues the update of line 63
  and the clear indicator of line 68. In the first run below the stop event for the handler's
  own message is accepted and the handler disposed while \<^verbatim>\<open>run\<close> waits for its third
  chunk; the chunk arrives all the same, and an update with the text \<open>''The summary ''\<close>, never
  sent before, follows the disposal. In the second run the chunk arrives while the stop
  listener still awaits its clear indicator (line 111): \<open>is_done\<close> is not set yet, and the
  loop issues an update of its own.
\<close>

theorem stop_then_chunk_updates:
  "calls (exec stopped_then_chunk (prompted ''Summarize X'' msg1)) =
     [On ''ai_indicator.stop'',
      SendEvent_update AI_STATE_GENERATING ''messaging:c1'' ''m1'',
      GenerateContentStream ''Summarize X'',
      PartialUpdateMessage ''m1'' ''The '' None,
      Abort, SendEvent_clear ''messaging:c1'' ''m1'',
      Off ''ai_indicator.stop'', OnDispose,
      PartialUpdateMessage ''m1'' ''The summary '' None,
      SendEvent_clear ''messaging:c1'' ''m1'']
   \<and> calls (exec stopping_then_chunk (prompted ''Summarize X'' msg1)) =
     [On ''ai_indicator.stop'',
      SendEvent_update AI_STATE_GENERATING ''messaging:c1'' ''m1'',
      GenerateContentStream ''Summarize X'',
      PartialUpdateMessage ''m1'' ''The '' None,
      Abort, SendEvent_clear ''messaging:c1'' ''m1'',
      PartialUpdateMessage ''m1'' ''The summary '' None]"
  by (simp add: stopped_then_chunk_def stopping_then_chunk_def handler_eval)

text \<open>
  Claim C5, as stated, fails at the boundary: line 53 compares with \<^verbatim>\<open>>\<close>, so a chunk that
  arrives exactly 1000 ms after the last update is appended without an update. Here the first
  update was issued at 5000 and the next chunk is processed at 6000.
\<close>

theorem throttle_boundary_counterexample:
  "running flushed_once = Some (Suspended (Iterating ''The ''))
   \<and> last_update_time (obj flushed_once) = 5000
   \<and> \<not> is_done (obj flushed_once)
   \<and> 1000 \<le> 6000 - last_update_time (obj flushed_once)
   \<and> react (Answer (Chunk (Inr ''summary '') 6000)) flushed_once =
       (flushed_once\<lparr>running := Some (Suspended (Iterating ''The summary ''))\<rparr>, [])"
  by (simp add: flushed_once_def handler_eval)

text \<open>
  Claim C5, amended. The statement is about the calls a handler issues. A step of a handler
  issues an update that sets only the text of the message in three cases and in no other: a
  chunk reaches the loop of a handler that is done, or the stream ends at the loop, and the
  update is the final one of line 63; or a chunk with non-empty text reaches the loop of a
  handler that is not done and more than 1000 ms lie between \<open>last_update_time\<close> and the
  reading \<open>now\<close> of the clock, and the update is the one of line 54, carrying the whole of
  \<^verbatim>\<open>fullResponse\<close>. So a non-final update is issued exactly when a non-empty chunk
  is appended more than 1000 ms after \<open>last_update_time\<close>; when it is fulfilled,
  \<open>last_update_time\<close> is \<open>now\<close>. Consequently, over every sequence of inputs from every
  state, any two non-final updates are more than 1000 ms apart by the readings of the clock
  they were issued at.
\<close>

theorem throttle_bound:
  "stream_texts (snd (react i s)) =
     (case (i, running s) of
        (Answer (Chunk c now), Some (Suspended (Iterating f))) \<Rightarrow>
          if is_done (obj s) then [f]
          else (case c of
                  Inl e \<Rightarrow> []
                | Inr t \<Rightarrow>
                    if t \<noteq> [] \<and> now - last_update_time (obj s) > 1000 then [f @ t] else [])
      | (Answer Exhausted, Some (Suspended (Iterating f))) \<Rightarrow> [f]
      | _ \<Rightarrow> [])
   \<and> calls (step i s) = calls s @ snd (react i s)
   \<and> (issued_at i s \<noteq> []) =
       (\<exists>f t now. running s = Some (Suspended (Iterating f)) \<and> i = Answer (Chunk (Inr t) now)
          \<and> \<not> is_done (obj s) \<and> t \<noteq> [] \<and> now - last_update_time (obj s) > 1000)
   \<and> (running s = Some (Suspended (Iterating f)) \<and> \<not> is_done (obj s) \<and> t \<noteq> []
        \<and> now - last_update_time (obj s) > 1000 \<longrightarrow>
        snd (react (Answer (Chunk (Inr t) now)) s) =
          [PartialUpdateMessage (id' (message (obj s))) (f @ t) None]
        \<and> issued_at (Answer (Chunk (Inr t) now)) s = [now]
        \<and> last_update_time
            (obj (exec [Answer (Chunk (Inr t) now), Answer (Settled Fulfilled)] s)) = now)
   \<and> sorted_wrt (\<lambda>a b. b - a > 1000) (update_times ins s)"
proof -
  have c: "(issued_at i s \<noteq> []) =
       (\<exists>f t now. running s = Some (Suspended (Iterating f)) \<and> i = Answer (Chunk (Inr t) now)
          \<and> \<not> is_done (obj s) \<and> t \<noteq> [] \<and> now - last_update_time (obj s) > 1000)"
    unfolding issued_at_iff
    by (auto split: input.splits answer.splits option.splits outcome.splits run_pc.splits
        sum.splits)
  have d: "running s = Some (Suspended (Iterating f)) \<and> \<not> is_done (obj s) \<and> t \<noteq> []
        \<and> now - last_update_time (obj s) > 1000 \<longrightarrow>
        snd (react (Answer (Chunk (Inr t) now)) s) =
          [PartialUpdateMessage (id' (message (obj s))) (f @ t) None]
        \<and> issued_at (Answer (Chunk (Inr t) now)) s = [now]
        \<and> last_update_time
            (obj (exec [Answer (Chunk (Inr t) now), Answer (Settled Fulfilled)] s)) = now"
    by (simp add: exec_def step_def issued_at_def)
  have e: "sorted_wrt (\<lambda>a b. b - a > 1000) (update_times ins s)"
    using throttled_spaced[of ins s] by (simp add: update_times_throttled)
  from react_stream_texts[of i s] step_calls[of i s] c d e show ?thesis by blast
qed

theorem throttle_bound_witness:
  "running flushed_once = Some (Suspended (Iterating ''The ''))
   \<and> \<not> is_done (obj flushed_once)
   \<and> 6001 - last_update_time (obj flushed_once) > 1000
   \<and> snd (react (Answer (Chunk (Inr ''summary '') 6001)) flushed_once) =
       [PartialUpdateMessage ''m1'' ''The summary '' None]
   \<and> issued_at (Answer (Chunk (Inr ''summary '') 6001)) flushed_once = [6001]
   \<and> issued_at (Answer (Chunk (Inr ''summary '') 6000)) flushed_once = []
   \<and> last_update_time (obj (exec
        [Answer (Chunk (Inr ''summary '') 6001), Answer (Settled Fulfilled)] flushed_once)) = 6001
   \<and> stream_texts (calls (exec
        [Call_run, Answer (Settled Fulfilled), Answer (Settled Fulfilled),
         Answer (Chunk (Inr ''The '') 5000), Answer (Settled Fulfilled),
         Answer (Chunk (Inr ''summary '') 6000),
         Answer (Chunk (Inr ''is Y.'') 6001)]
        (prompted ''Summarize X'' msg1))) = [''The '', ''The summary is Y.'']
   \<and> update_times
        [Call_run, Answer (Settled Fulfilled), Answer (Settled Fulfilled),
         Answer (Chunk (Inr ''The '') 5000), Answer (Settled Fulfilled),
         Answer (Chunk (Inr ''summary '') 6000),
         Answer (Chunk (Inr ''is Y.'') 6001)]
        (prompted ''Summarize X'' msg1) = [5000, 6001]
   \<and> sorted_wrt (\<lambda>a b. b - a > 1000) [5000, 6001 :: int]"
proof -
  have s: "running flushed_once = Some (Suspended (Iterating ''The ''))"
    "\<not> is_done (obj flushed_once)" "last_update_time (obj flushed_once) = 5000"
    "id' (message (obj flushed_once)) = ''m1''"
    by (simp_all add: flushed_once_def handler_eval)
  have n: "issued_at (Answer (Chunk (Inr ''summary '') 6000)) flushed_once = []"
    by (simp add: issued_at_def flushed_once_def handler_eval)
  have c: "stream_texts (calls (exec
        [Call_run, Answer (Settled Fulfilled), Answer (Settled Fulfilled),
         Answer (Chunk (Inr ''The '') 5000), Answer (Settled Fulfilled),
         Answer (Chunk (Inr ''summary '') 6000),
         Answer (Chunk (Inr ''is Y.'') 6001)]
        (prompted ''Summarize X'' msg1))) = [''The '', ''The summary is Y.'']"
    by (simp add: handler_eval)
  have t: "update_times
        [Call_run, Answer (Settled Fulfilled), Answer (Settled Fulfilled),
         Answer (Chunk (Inr ''The '') 5000), Answer (Settled Fulfilled),
         Answer (Chunk (Inr ''summary '') 6000),
         Answer (Chunk (Inr ''is Y.'') 6001)]
        (prompted ''Summarize X'' msg1) = [5000, 6001]"
    by (simp add: issued_at_def handler_eval)
  from throttle_bound[where s = flushed_once and f = "''The ''" and t = "''summary ''"
      and now = 6001 and i = "Answer (Chunk (Inr ''summary '') 6001)"
      and ins = "[Call_run, Answer (Settled Fulfilled), Answer (Settled Fulfilled),
         Answer (Chunk (Inr ''The '') 5000), Answer (Settled Fulfilled),
         Answer (Chunk (Inr ''summary '') 6000),
         Answer (Chunk (Inr ''is Y.'') 6001)]"] s n c t
    throttle_bound[where s = "prompted ''Summarize X'' msg1"
      and ins = "[Call_run, Answer (Settled Fulfilled), Answer (Settled Fulfilled),
         Answer (Chunk (Inr ''The '') 5000), Answer (Settled Fulfilled),
         Answer (Chunk (Inr ''summary '') 6000),
         Answer (Chunk (Inr ''is Y.'') 6001)]"]
  show ?thesis by simp
qed

text \<open>
  Claim C6, as stated, fails: it holds only of a handler that is not done. Here the stop event
  is accepted and the handler disposed while \<^verbatim>\<open>run\<close> awaits the stream; the request is then
  rejected with an error that is not an \<^verbatim>\<open>AbortError\<close>. \<^verbatim>\<open>handleError\<close> finds
  \<open>is_done\<close> set (line 120) and returns: no error indicator, no rewrite of the message.
\<close>

theorem error_path_counterexample:
  "\<not> (instanceof_Error quota_error \<and> error_name quota_error = ''AbortError'')
   \<and> calls (exec stopped_then_fails (prompted ''Summarize X'' msg1)) =
     [On ''ai_indicator.stop'',
      SendEvent_update AI_STATE_GENERATING ''messaging:c1'' ''m1'',
      GenerateContentStream ''Summarize X'',
      Abort, SendEvent_clear ''messaging:c1'' ''m1'',
      Off ''ai_indicator.stop'', OnDispose]
   \<and> running (exec stopped_then_fails (prompted ''Summarize X'' msg1)) = Some Returned"
  by (simp add: stopped_then_fails_def handler_eval)

text \<open>
  Claim C6, amended. Let \<^verbatim>\<open>run\<close> be suspended at an await \<open>k\<close> of its \<^verbatim>\<open>try\<close> block and
  fail there with an error \<open>e\<close> that is not an \<^verbatim>\<open>AbortError\<close> (the awaited call is rejected,
  or \<^verbatim>\<open>chunk.text()\<close> throws), while the handler is not done. Then the segment issues the
  error indicator and nothing else. When that is fulfilled the next segment rewrites the message
  to \<^verbatim>\<open>error.message\<close>, or to the fixed text when there is none; when that is fulfilled the
  last segment leaves the handler done and \<^verbatim>\<open>run\<close> returned, calling \<^verbatim>\<open>onDispose\<close>
  unless the handler was disposed in the meantime. With nothing in between, the calls are the
  error indicator, the rewrite and the two calls of \<^verbatim>\<open>dispose\<close>, in this order. Whatever
  follows the failure (\<open>ins\<close>), the model is not asked again.
\<close>

theorem error_path:
  "(running s = Some (Suspended k) \<and> in_try k
      \<and> (a = Settled (Rejected e) \<or> (\<exists>f now. k = Iterating f \<and> a = Chunk (Inl e) now))
      \<and> \<not> (instanceof_Error e \<and> error_name e = ''AbortError'') \<and> \<not> is_done (obj s) \<longrightarrow>
      react (Answer a) s =
        (s\<lparr>running := Some (Suspended (Failing (Error_event e)))\<rparr>,
         [SendEvent_update AI_STATE_ERROR (cid (message (obj s))) (id' (message (obj s)))])
      \<and> calls (exec [Answer a, Answer (Settled Fulfilled), Answer (Settled Fulfilled)] s) =
          calls s @
          [SendEvent_update AI_STATE_ERROR (cid (message (obj s))) (id' (message (obj s))),
           PartialUpdateMessage (id' (message (obj s)))
             (case error_message e of Some t \<Rightarrow> t | None \<Rightarrow> ''Error generating the message'')
             (Some (error_toString e)),
           Off ''ai_indicator.stop'', OnDispose]
      \<and> running (exec [Answer a, Answer (Settled Fulfilled), Answer (Settled Fulfilled)] s) =
          Some Returned
      \<and> is_done (obj (exec [Answer a, Answer (Settled Fulfilled), Answer (Settled Fulfilled)] s))
      \<and> (\<exists>es. calls (exec (Answer a # ins) s) = calls s @ es \<and> no_request es))
   \<and> (running s = Some (Suspended (Failing (Error_event e))) \<longrightarrow>
        react (Answer (Settled Fulfilled)) s =
          (s\<lparr>running := Some (Suspended (Failing Error_update))\<rparr>,
           [PartialUpdateMessage (id' (message (obj s)))
              (case error_message e of Some t \<Rightarrow> t | None \<Rightarrow> ''Error generating the message'')
              (Some (error_toString e))]))
   \<and> (running s = Some (Suspended (Failing Error_update)) \<longrightarrow>
        is_done (obj (step (Answer (Settled Fulfilled)) s))
        \<and> running (step (Answer (Settled Fulfilled)) s) = Some Returned
        \<and> calls (step (Answer (Settled Fulfilled)) s) =
            calls s @ (if is_done (obj s) then [] else [Off ''ai_indicator.stop'', OnDispose]))"
proof -
  have a: "react (Answer a) s =
        (s\<lparr>running := Some (Suspended (Failing (Error_event e)))\<rparr>,
         [SendEvent_update AI_STATE_ERROR (cid (message (obj s))) (id' (message (obj s)))])
      \<and> calls (exec [Answer a, Answer (Settled Fulfilled), Answer (Settled Fulfilled)] s) =
          calls s @
          [SendEvent_update AI_STATE_ERROR (cid (message (obj s))) (id' (message (obj s))),
           PartialUpdateMessage (id' (message (obj s)))
             (case error_message e of Some t \<Rightarrow> t | None \<Rightarrow> ''Error generating the message'')
             (Some (error_toString e)),
           Off ''ai_indicator.stop'', OnDispose]
      \<and> running (exec [Answer a, Answer (Settled Fulfilled), Answer (Settled Fulfilled)] s) =
          Some Returned
      \<and> is_done (obj (exec [Answer a, Answer (Settled Fulfilled), Answer (Settled Fulfilled)] s))
      \<and> (\<exists>es. calls (exec (Answer a # ins) s) = calls s @ es \<and> no_request es)"
    if k: "running s = Some (Suspended k)" "in_try k"
      and f: "a = Settled (Rejected e) \<or> (\<exists>f now. k = Iterating f \<and> a = Chunk (Inl e) now)"
      and e: "\<not> (instanceof_Error e \<and> error_name e = ''AbortError'')" and d: "\<not> is_done (obj s)"
  proof -
    have r: "run_resume k a (obj s) =
        (obj s, [SendEvent_update AI_STATE_ERROR (cid (message (obj s))) (id' (message (obj s)))],
         Suspended (Failing (Error_event e)))"
      using run_resume_fails[OF k(2) f d] run_catch_error_path[OF e d] by simp
    have 1: "react (Answer a) s =
        (s\<lparr>running := Some (Suspended (Failing (Error_event e)))\<rparr>,
         [SendEvent_update AI_STATE_ERROR (cid (message (obj s))) (id' (message (obj s)))])"
      using k r by simp
    have 2: "step (Answer a) s =
        s\<lparr>running := Some (Suspended (Failing (Error_event e))),
          calls := calls s @
            [SendEvent_update AI_STATE_ERROR (cid (message (obj s))) (id' (message (obj s)))]\<rparr>"
      using 1 by (simp add: step_def)
    have 3: "past_loop (running (step (Answer a) s))" by (simp add: 2)
    from exec_past[OF 3, of ins] obtain es where
      es: "calls (exec ins (step (Answer a) s)) = calls (step (Answer a) s) @ es" "quiet es"
      by blast
    have "calls (exec (Answer a # ins) s) = calls s @
        (SendEvent_update AI_STATE_ERROR (cid (message (obj s))) (id' (message (obj s))) # es)"
      using es(1) by (simp add: exec_Cons 2)
    moreover have "no_request
        (SendEvent_update AI_STATE_ERROR (cid (message (obj s))) (id' (message (obj s))) # es)"
      using es(2) by (simp add: no_request_def quiet_def)
    ultimately have 4: "\<exists>es. calls (exec (Answer a # ins) s) = calls s @ es \<and> no_request es"
      by blast
    have 5: "exec [Answer a, Answer (Settled Fulfilled), Answer (Settled Fulfilled)] s =
        exec [Answer (Settled Fulfilled), Answer (Settled Fulfilled)] (step (Answer a) s)"
      by (simp add: exec_def)
    show ?thesis
      unfolding 5 using 1 4 d
      by (simp add: 2 exec_def step_def run_finally_def dispose_def)
  qed
  have b: "running s = Some (Suspended (Failing (Error_event e))) \<longrightarrow>
        react (Answer (Settled Fulfilled)) s =
          (s\<lparr>running := Some (Suspended (Failing Error_update))\<rparr>,
           [PartialUpdateMessage (id' (message (obj s)))
              (case error_message e of Some t \<Rightarrow> t | None \<Rightarrow> ''Error generating the message'')
              (Some (error_toString e))])"
    by simp
  have c: "running s = Some (Suspended (Failing Error_update)) \<longrightarrow>
        is_done (obj (step (Answer (Settled Fulfilled)) s))
        \<and> running (step (Answer (Settled Fulfilled)) s) = Some Returned
        \<and> calls (step (Answer (Settled Fulfilled)) s) =
            calls s @ (if is_done (obj s) then [] else [Off ''ai_indicator.stop'', OnDispose])"
    by (simp add: step_def run_finally_def dispose_def)
  from a b c show ?thesis by blast
qed

theorem error_path_witness:
  "running (exec [Call_run, Answer (Settled Fulfilled), Answer (Settled Fulfilled)]
      (prompted ''Summarize X'' msg1)) = Some (Suspended (Iterating []))
   \<and> \<not> (instanceof_Error quota_error \<and> error_name quota_error = ''AbortError'')
   \<and> calls (exec stream_fails (prompted ''Summarize X'' msg1)) =
       [On ''ai_indicator.stop'',
        SendEvent_update AI_STATE_GENERATING ''messaging:c1'' ''m1'',
        GenerateContentStream ''Summarize X'',
        SendEvent_update AI_STATE_ERROR ''messaging:c1'' ''m1'',
        PartialUpdateMessage ''m1'' ''quota exceeded'' (Some ''Error: quota exceeded''),
        Off ''ai_indicator.stop'', OnDispose]
   \<and> running (exec stream_fails (prompted ''Summarize X'' msg1)) = Some Returned
   \<and> is_done (obj (exec stream_fails (prompted ''Summarize X'' msg1)))"
proof -
  let ?s = "exec [Call_run, Answer (Settled Fulfilled), Answer (Settled Fulfilled)]
      (prompted ''Summarize X'' msg1)"
  have s: "running ?s = Some (Suspended (Iterating []))" "\<not> is_done (obj ?s)"
    "calls ?s = [On ''ai_indicator.stop'',
        SendEvent_update AI_STATE_GENERATING ''messaging:c1'' ''m1'',
        GenerateContentStream ''Summarize X'']"
    "message (obj ?s) = msg1"
    by (simp_all add: handler_eval)
  have l: "exec stream_fails (prompted ''Summarize X'' msg1) =
      exec [Answer (Settled (Rejected quota_error)), Answer (Settled Fulfilled),
            Answer (Settled Fulfilled)] ?s"
    by (simp add: stream_fails_def exec_def)
  have q: "\<not> (instanceof_Error quota_error \<and> error_name quota_error = ''AbortError'')"
    "error_message quota_error = Some ''quota exceeded''"
    "error_toString quota_error = ''Error: quota exceeded''"
    by (simp_all add: quota_error_def)
  from error_path[where s = ?s and k = "Iterating []" and a = "Settled (Rejected quota_error)"
      and e = quota_error and ins = "[]"] s q
  show ?thesis unfolding l by (simp add: msg1_def)
qed

text \<open>
  Claim C7. When the handler is done, or the stop event names another message (or none), the
  stop listener returns at once: the handler's fields are as before, no call is issued (so
  the controller is not aborted, no event is sent and \<^verbatim>\<open>dispose\<close> is not called), and
  nothing is left suspended. The handler with all that is in flight for it is unchanged.
\<close>

theorem stop_signal_scoped:
  "is_done (obj s) \<or> event_message_id ev \<noteq> Some (id' (message (obj s))) \<longrightarrow>
     handleStopGenerating ev (obj s) = (obj s, [], Returned)
     \<and> react (Stop_event ev) s = (s, [])
     \<and> step (Stop_event ev) s = s"
  by (auto simp: handleStopGenerating_def step_def)

theorem stop_signal_scoped_witness:
  "event_message_id (stop_for ''m2'') \<noteq> Some (id' (message (obj flushed_once)))
   \<and> \<not> is_done (obj flushed_once)
   \<and> step (Stop_event (stop_for ''m2'')) flushed_once = flushed_once
   \<and> event_message_id (stop_for ''m1'') =
       Some (id' (message (obj (exec raced (prompted ''Summarize X'' msg1)))))
   \<and> is_done (obj (exec raced (prompted ''Summarize X'' msg1)))
   \<and> step (Stop_event (stop_for ''m1'')) (exec raced (prompted ''Summarize X'' msg1)) =
       exec raced (prompted ''Summarize X'' msg1)"
proof -
  have a: "event_message_id (stop_for ''m2'') \<noteq> Some (id' (message (obj flushed_once)))"
    "\<not> is_done (obj flushed_once)"
    by (simp_all add: flushed_once_def handler_eval)
  have b: "event_message_id (stop_for ''m1'') =
       Some (id' (message (obj (exec raced (prompted ''Summarize X'' msg1)))))"
    "is_done (obj (exec raced (prompted ''Summarize X'' msg1)))"
    by (simp_all add: raced_def handler_eval)
  from stop_signal_scoped[of flushed_once "stop_for ''m2''"]
    stop_signal_scoped[of "exec raced (prompted ''Summarize X'' msg1)" "stop_for ''m1''"] a b
  show ?thesis by simp
qed

text \<open>
  Claim C8. When \<^verbatim>\<open>genAI\<close> or \<^verbatim>\<open>model\<close> is not set, the event carries no message, the
  message is flagged \<^verbatim>\<open>ai_generated\<close>, or its text is absent or empty,
  \<^verbatim>\<open>handleMessage\<close> leaves the agent and all its handlers exactly as they were: no handler
  object is created or registered, no call is issued to the transport, and no invocation is
  left suspended that could do so later.
\<close>

theorem handleMessage_ignores:
  "\<not> genAI w \<or> \<not> model w \<or> event_message e = None
     \<or> (\<exists>msg. event_message e = Some msg
          \<and> (ai_generated msg \<or> message_body msg = None \<or> message_body msg = Some [])) \<longrightarrow>
   handleMessage e now currentDate w = w \<and> wstep (Message_new e now currentDate) w = w"
  by (auto simp: handleMessage_def split: option.splits)

theorem handleMessage_ignores_witness:
  "genAI (wexec two_in_flight (new_agent 0)) \<and> model (wexec two_in_flight (new_agent 0))
   \<and> event_message (ai_event ''Here is a draft'') =
       Some \<lparr>ai_generated = True, message_body = Some ''Here is a draft'', writingTask = None\<rparr>
   \<and> handleMessage (ai_event ''Here is a draft'') 30 ''May 1, 2025''
        (wexec two_in_flight (new_agent 0)) = wexec two_in_flight (new_agent 0)
   \<and> handleMessage (user_event ''a'') 30 ''May 1, 2025'' (new_agent 0) = new_agent 0
   \<and> handleMessage (stop_for ''m1'') 30 ''May 1, 2025''
        (wexec two_in_flight (new_agent 0)) = wexec two_in_flight (new_agent 0)
   \<and> handleMessage (user_event []) 30 ''May 1, 2025''
        (wexec two_in_flight (new_agent 0)) = wexec two_in_flight (new_agent 0)"
proof -
  have a: "genAI (wexec two_in_flight (new_agent 0))" "model (wexec two_in_flight (new_agent 0))"
    by (simp_all add: agent_eval handler_eval)
  have b: "\<not> genAI (new_agent 0)" by (simp add: new_agent_def)
  have c: "event_message (ai_event ''Here is a draft'') =
       Some \<lparr>ai_generated = True, message_body = Some ''Here is a draft'', writingTask = None\<rparr>"
    "event_message (stop_for ''m1'') = None"
    "event_message (user_event []) =
       Some \<lparr>ai_generated = False, message_body = Some [], writingTask = None\<rparr>"
    by (simp_all add: ai_event_def stop_for_def user_event_def)
  from handleMessage_ignores[of "wexec two_in_flight (new_agent 0)" "ai_event ''Here is a draft''"
      30 "''May 1, 2025''"]
    handleMessage_ignores[of "new_agent 0" "user_event ''a''" 30 "''May 1, 2025''"]
    handleMessage_ignores[of "wexec two_in_flight (new_agent 0)" "stop_for ''m1''"
      30 "''May 1, 2025''"]
    handleMessage_ignores[of "wexec two_in_flight (new_agent 0)" "user_event []"
      30 "''May 1, 2025''"]
    a b c
  show ?thesis by simp
qed

text \<open>
  Claim C9. Take any agent that can arise from construction (\<open>history\<close>), call its
  \<^verbatim>\<open>dispose\<close>, and let anything happen while it awaits \<^verbatim>\<open>disconnectUser\<close> (\<open>ins\<close>:
  handlers may finish or be stopped and remove themselves, suspended invocations of
  \<^verbatim>\<open>handleMessage\<close> may register new handlers). When \<^verbatim>\<open>disconnectUser\<close> is fulfilled,
  \<^verbatim>\<open>dispose\<close> completes without an error, the registry is empty, and every handler that was
  in the registry when \<^verbatim>\<open>dispose\<close> was called, and every handler that is in it when the
  await ends, is done. Removing a handler that is not in the registry leaves the agent
  unchanged.
\<close>

theorem agent_dispose_disposes_all:
  "\<exists>w'. agent_dispose_resume Fulfilled (wexec ins (agent_dispose (wexec history (new_agent t)))) =
          Inr w'
     \<and> handlers w' = []
     \<and> (\<forall>r \<in> set (handlers (wexec history (new_agent t))).
          r < length (objects w') \<and> is_done (obj (objects w' ! r)))
     \<and> (\<forall>r \<in> set (handlers (wexec ins (agent_dispose (wexec history (new_agent t))))).
          r < length (objects w') \<and> is_done (obj (objects w' ! r)))
     \<and> (r \<notin> set (handlers w) \<longrightarrow> removeHandler r w = w)"
proof -
  let ?w0 = "wexec history (new_agent t)"
  let ?w1 = "wexec ins (agent_dispose ?w0)"
  obtain w' where w': "agent_dispose_resume Fulfilled ?w1 = Inr w'"
    by (simp add: agent_dispose_resume_def)
  have ok0: "registry_ok ?w0"
    by (simp add: wexec_registry_ok new_agent_registry_ok)
  then have "registry_ok (agent_dispose ?w0)"
    by (simp add: registry_ok_def agent_dispose_def)
  then have ok1: "registry_ok ?w1"
    by (rule wexec_registry_ok)
  have a: "r < length (objects w') \<and> is_done (obj (objects w' ! r))"
    if "r \<in> set (handlers ?w0)" for r
  proof -
    from that ok0 have "kept r ?w0" by (simp add: kept_def registry_ok_def)
    then have "kept r (agent_dispose ?w0)" by (simp add: kept_def agent_dispose_def)
    then have "kept r ?w1" by (rule wexec_kept)
    from agent_dispose_resume_kept[OF this w'] show ?thesis by simp
  qed
  have b: "r < length (objects w') \<and> is_done (obj (objects w' ! r))"
    if "r \<in> set (handlers ?w1)" for r
  proof -
    from that ok1 have "kept r ?w1" by (simp add: kept_def registry_ok_def)
    from agent_dispose_resume_kept[OF this w'] show ?thesis by simp
  qed
  have "handlers w' = []"
    using w' by (auto simp: agent_dispose_resume_def)
  with w' a b show ?thesis by (auto simp: removeHandler_absent)
qed

theorem agent_dispose_disposes_all_witness:
  "handlers (wexec two_in_flight (new_agent 0)) = [0, 1]
   \<and> handlers (wexec [To_handler 0 (Stop_event (stop_for ''m1'')),
                       To_handler 0 (Stop_answer Fulfilled)]
        (agent_dispose (wexec two_in_flight (new_agent 0)))) = [1]
   \<and> (\<exists>w'. agent_dispose_resume Fulfilled
              (wexec [To_handler 0 (Stop_event (stop_for ''m1'')),
                      To_handler 0 (Stop_answer Fulfilled)]
                 (agent_dispose (wexec two_in_flight (new_agent 0)))) = Inr w'
          \<and> handlers w' = []
          \<and> is_done (obj (objects w' ! 0)) \<and> is_done (obj (objects w' ! 1)))
   \<and> 0 \<notin> set (handlers (removeHandler 0 (wexec two_in_flight (new_agent 0))))
   \<and> removeHandler 0 (removeHandler 0 (wexec two_in_flight (new_agent 0))) =
       removeHandler 0 (wexec two_in_flight (new_agent 0))"
proof -
  have a: "handlers (wexec two_in_flight (new_agent 0)) = [0, 1]"
    by (simp add: agent_eval handler_eval)
  have b: "handlers (wexec [To_handler 0 (Stop_event (stop_for ''m1'')),
                       To_handler 0 (Stop_answer Fulfilled)]
        (agent_dispose (wexec two_in_flight (new_agent 0)))) = [1]"
    by (simp add: agent_eval handler_eval)
  have c: "0 \<notin> set (handlers (removeHandler 0 (wexec two_in_flight (new_agent 0))))"
    by (simp add: removeHandler_def)
  from agent_dispose_disposes_all[where history = two_in_flight and t = 0
      and ins = "[To_handler 0 (Stop_event (stop_for ''m1'')),
                  To_handler 0 (Stop_answer Fulfilled)]"
      and r = 0 and w = "removeHandler 0 (wexec two_in_flight (new_agent 0))"] a b c
  show ?thesis by auto
qed

text \<open>
  Claim C10. \<^verbatim>\<open>handleError\<close> on a handler that is done returns at once: the handler's
  fields are as before and no call is issued, hence no error indicator and no rewrite of the
  message. So when \<^verbatim>\<open>run\<close> fails in its \<^verbatim>\<open>try\<close> block with an error that is not an
  \<^verbatim>\<open>AbortError\<close> after the handler was disposed, the catch and finally blocks change
  nothing either: \<^verbatim>\<open>run\<close> just returns.
\<close>

theorem handleError_when_done:
  "is_done h \<longrightarrow>
     handleError e h = (h, [], Returned)
     \<and> (\<not> (instanceof_Error e \<and> error_name e = ''AbortError'') \<longrightarrow>
          run_catch e h = (h, [], Returned)
          \<and> (obj s = h \<and> running s = Some (Suspended k) \<and> in_try k \<longrightarrow>
               step (Answer (Settled (Rejected e))) s = s\<lparr>running := Some Returned\<rparr>))"
proof
  assume d: "is_done h"
  have a: "handleError e h = (h, [], Returned)"
    using d by (simp add: handleError_def)
  have b: "run_catch e h = (h, [], Returned)"
    if "\<not> (instanceof_Error e \<and> error_name e = ''AbortError'')"
    using d that by (auto simp: run_catch_def handleError_def run_finally_def dispose_def)
  have c: "step (Answer (Settled (Rejected e))) s = s\<lparr>running := Some Returned\<rparr>"
    if n: "\<not> (instanceof_Error e \<and> error_name e = ''AbortError'')"
      and s: "obj s = h" "running s = Some (Suspended k)" "in_try k"
  proof -
    have "run_resume k (Settled (Rejected e)) h = run_catch e h"
      using s(3) by (cases k) auto
    with b[OF n] s show ?thesis by (simp add: step_def)
  qed
  from a b c show "handleError e h = (h, [], Returned)
     \<and> (\<not> (instanceof_Error e \<and> error_name e = ''AbortError'') \<longrightarrow>
          run_catch e h = (h, [], Returned)
          \<and> (obj s = h \<and> running s = Some (Suspended k) \<and> in_try k \<longrightarrow>
               step (Answer (Settled (Rejected e))) s = s\<lparr>running := Some Returned\<rparr>))"
    by blast
qed

theorem handleError_when_done_witness:
  "is_done disposed_handler
   \<and> \<not> (instanceof_Error quota_error \<and> error_name quota_error = ''AbortError'')
   \<and> handleError quota_error disposed_handler = (disposed_handler, [], Returned)
   \<and> run_catch quota_error disposed_handler = (disposed_handler, [], Returned)"
proof -
  have a: "is_done disposed_handler"
    by (simp add: disposed_handler_def)
  have b: "\<not> (instanceof_Error quota_error \<and> error_name quota_error = ''AbortError'')"
    by (simp add: quota_error_def)
  from handleError_when_done[of disposed_handler quota_error] a b
  show ?thesis by simp
qed

end
